theory Spec2Isabelle
  imports Main
begin

section \<open>The cosigner pool plugin (plugins/cosigner\_pool.py)\<close>

text \<open>
  The plugin relays partially signed transactions between cosigners through a remote
  key-value server. A background thread (\<open>Listener\<close>) polls the server for the key hashes
  of the local keys; the plugin (\<open>Plugin\<close>) rebuilds its key lists when windows open or
  close, sends a transaction to the cosigners and handles a received message.

  The remote server, the GUI windows, the wallets and the \<open>bitcoin\<close> helpers are not part
  of the file. Their answers enter the model as arguments; what the file does to them
  (a server call, a message box, a log line, a sleep) leaves the model as an event.
\<close>

subsection \<open>Data\<close>

type_synonym keyhash = string
type_synonym window = nat

text \<open>A call of an external collaborator either raises or returns.\<close>

datatype 'a outcome = Raises | Returns 'a

text \<open>The Python exceptions that leave a function of the file.\<close>

datatype exn = ServerError | KeyError | AttributeError

text \<open>
  The observable effects, in program order: \<open>print_error\<close> with its arguments,
  \<open>time.sleep\<close> with its seconds, the emission of the signal \<open>cosigner:receive\<close>, the
  calls \<open>server.delete\<close> and \<open>server.put\<close>, \<open>window.show_message\<close>,
  \<open>show_transaction\<close>, \<open>traceback.print_exc\<close> and the start of a listener thread.
\<close>

datatype event =
    PrintError "string list"
  | Sleep nat
  | Emit keyhash string
  | ServerDelete keyhash
  | ServerPut keyhash string
  | ShowMessage window string
  | ShowTransaction window string
  | PrintTraceback
  | ThreadStart

text \<open>Python truthiness of a value that is \<open>None\<close> or a string.\<close>

fun truthy :: "string option \<Rightarrow> bool" where
  "truthy None = False"
| "truthy (Some s) = (s \<noteq> [])"

subsection \<open>Listener\<close>

record listener =
  received :: "keyhash set"
  keyhashes :: "keyhash list"
  running :: bool

text \<open>
  \<open>Listener.__init__\<close>: an empty received set and an empty list of key hashes. The flag
  \<open>running\<close>, which the loop of \<open>run\<close> tests, belongs to the base class (below); it is
  unset until \<open>start\<close>.
\<close>

definition Listener_init :: listener where
  "Listener_init = \<lparr>received = {}, keyhashes = [], running = False\<rparr>"

text \<open>
  Modelled from the spec: the base class \<open>util.DaemonThread\<close> with its methods \<open>start\<close> and
  \<open>stop\<close> is not in the file. In the spec the listener is a state machine
  \<open>Stopped -> Running -> Stopped\<close>. The loop of \<open>run\<close> is \<open>while self.running\<close>, so \<open>start\<close>
  sets the flag before the thread runs.
\<close>

definition start :: "listener \<Rightarrow> listener" where
  "start l = l\<lparr>running := True\<rparr>"

text \<open>
  Modelled from the spec: the stop signal of the absent base class \<open>util.DaemonThread\<close>.
  What \<open>stop()\<close> does to the fields of the listener is to clear the flag that the loop of
  \<open>run\<close> tests; the call itself goes on to wait for the listener (see \<open>stop\<close> below).
\<close>

definition signal_stop :: "listener \<Rightarrow> listener" where
  "signal_stop l = l\<lparr>running := False\<rparr>"

definition set_keyhashes :: "keyhash list \<Rightarrow> listener \<Rightarrow> listener" where
  "set_keyhashes ks l = l\<lparr>keyhashes := ks\<rparr>"

text \<open>
  \<open>Listener.clear\<close>: first \<open>server.delete(keyhash)\<close>, whose outcome is the first
  argument, then \<open>self.received.remove(keyhash)\<close>, which raises \<open>KeyError\<close> when the key
  hash is not in the set. The result is the events, the listener afterwards and the
  exception that leaves the method, if any.
\<close>

definition clear :: "unit outcome \<Rightarrow> keyhash \<Rightarrow> listener \<Rightarrow> event list \<times> listener \<times> exn option" where
  "clear deleted keyhash l =
     (case deleted of
        Raises \<Rightarrow> ([ServerDelete keyhash], l, Some ServerError)
      | Returns _ \<Rightarrow>
          if keyhash \<in> received l
          then ([ServerDelete keyhash], l\<lparr>received := received l - {keyhash}\<rparr>, None)
          else ([ServerDelete keyhash], l, Some KeyError))"

text \<open>
  \<open>Listener.run\<close>, one thread, as a machine that the scheduler steps. The other thread
  (the GUI) may run between two steps, so the place of the listener in its loop is part
  of the state: at the head of the \<open>while\<close> loop, inside the \<open>for\<close> loop with the key
  hashes still to visit (the \<open>for\<close> loop iterates over the list that
  \<open>self.keyhashes\<close> was when the loop began), between \<open>self.received.add\<close> and the
  emission of the signal, or after the \<open>while\<close> loop.
\<close>

datatype control =
    AtWhile
  | InFor "keyhash list"
  | Notify keyhash string "keyhash list"
  | Exited

text \<open>
  One step. The first argument is what \<open>server.get(keyhash)\<close> does if this step calls
  it: it raises, or it returns \<open>None\<close> or a string.
\<close>

fun listener_step :: "string option outcome \<Rightarrow> listener \<Rightarrow> control \<Rightarrow> event list \<times> listener \<times> control" where
  "listener_step got l AtWhile =
     (if \<not> running l then ([], l, Exited)
      else if keyhashes l = [] then ([Sleep 2], l, AtWhile)
      else ([], l, InFor (keyhashes l)))"
| "listener_step got l (InFor []) = ([Sleep 30], l, AtWhile)"
| "listener_step got l (InFor (keyhash # rest)) =
     (if keyhash \<in> received l then ([], l, InFor rest)
      else case got of
        Raises \<Rightarrow> ([PrintError [''cannot contact cosigner pool''], Sleep 30], l, InFor rest)
      | Returns None \<Rightarrow> ([], l, InFor rest)
      | Returns (Some message) \<Rightarrow>
          if truthy (Some message)
          then ([], l\<lparr>received := insert keyhash (received l)\<rparr>, Notify keyhash message rest)
          else ([], l, InFor rest))"
| "listener_step got l (Notify keyhash message rest) =
     ([PrintError [''received message for'', keyhash], Emit keyhash message], l, InFor rest)"
| "listener_step got l Exited = ([], l, Exited)"

subsection \<open>Plugin\<close>

type_synonym key = string

record plugin =
  listener :: "listener option"
  keys :: "(key \<times> keyhash \<times> window) list"
  cosigner_list :: "(window \<times> string \<times> string \<times> keyhash) list"

text \<open>\<open>Plugin.__init__\<close>.\<close>

definition Plugin_init :: plugin where
  "Plugin_init = \<lparr>listener = None, keys = [], cosigner_list = []\<rparr>"

text \<open>
  What the collaborators of \<open>on_receive\<close> answer: \<open>wallet.use_encryption\<close> of the window's
  wallet, the password dialog (\<open>None\<close> when dismissed), the question dialog,
  \<open>wallet.get_master_private_key(key, password)\<close>, the three calls inside the
  \<open>try\<close> block (\<open>deserialize_xkey\<close>, \<open>EC_KEY\<close>, \<open>decrypt_message\<close>: the text of the
  exception on the left, the decrypted message on the right) and \<open>server.delete\<close>.
\<close>

record env =
  use_encryption :: "window \<Rightarrow> bool"
  password_dialog :: "window \<Rightarrow> string option"
  question :: "window \<Rightarrow> bool"
  get_master_private_key :: "window \<Rightarrow> key \<Rightarrow> string option \<Rightarrow> string option"
  decrypt_message :: "string \<Rightarrow> string \<Rightarrow> string + string"
  server_delete :: "keyhash \<Rightarrow> unit outcome"

text \<open>The \<open>for ... else\<close> loop at the head of \<open>on_receive\<close>: the first entry with the key hash.\<close>

fun find_key :: "keyhash \<Rightarrow> (key \<times> keyhash \<times> window) list \<Rightarrow> (key \<times> keyhash \<times> window) option" where
  "find_key keyhash [] = None"
| "find_key keyhash ((key, hash, window) # rest) =
     (if hash = keyhash then Some (key, hash, window) else find_key keyhash rest)"

text \<open>
  The end of \<open>on_receive\<close>, after a decryption that succeeded: \<open>self.listener.clear\<close>
  (an \<open>AttributeError\<close> when there is no listener), then \<open>show_transaction\<close>.
\<close>

definition clear_and_show :: "env \<Rightarrow> plugin \<Rightarrow> keyhash \<Rightarrow> window \<Rightarrow> string \<Rightarrow> event list \<times> plugin \<times> exn option" where
  "clear_and_show e p keyhash window payload =
     (case listener p of
        None \<Rightarrow> ([], p, Some AttributeError)
      | Some l \<Rightarrow>
          (case clear (server_delete e keyhash) keyhash l of
             (ev, l', Some x) \<Rightarrow> (ev, p\<lparr>listener := Some l'\<rparr>, Some x)
           | (ev, l', None) \<Rightarrow> (ev @ [ShowTransaction window payload], p\<lparr>listener := Some l'\<rparr>, None)))"

definition on_receive :: "env \<Rightarrow> plugin \<Rightarrow> keyhash \<Rightarrow> string \<Rightarrow> event list \<times> plugin \<times> exn option" where
  "on_receive e p keyhash message =
     (case find_key keyhash (keys p) of
        None \<Rightarrow> ([PrintError [''signal arrived for'', keyhash], PrintError [''keyhash not found'']], p, None)
      | Some (key, hash, window) \<Rightarrow>
          let password = (if use_encryption e window then password_dialog e window else None) in
          if use_encryption e window \<and> \<not> truthy password
          then ([PrintError [''signal arrived for'', keyhash]], p, None)
          else if \<not> use_encryption e window \<and> \<not> question e window
          then ([PrintError [''signal arrived for'', keyhash]], p, None)
          else
            (case get_master_private_key e window key password of
               None \<Rightarrow> ([PrintError [''signal arrived for'', keyhash]], p, None)
             | Some xprv \<Rightarrow>
                 if xprv = [] then ([PrintError [''signal arrived for'', keyhash]], p, None)
                 else
                   (case decrypt_message e xprv message of
                      Inl err \<Rightarrow>
                        ([PrintError [''signal arrived for'', keyhash], PrintTraceback,
                          ShowMessage window err], p, None)
                    | Inr payload \<Rightarrow>
                        (case clear_and_show e p keyhash window payload of
                           (ev, p', x) \<Rightarrow> (PrintError [''signal arrived for'', keyhash] # ev, p', x)))))"

text \<open>
  \<open>cosigner_can_sign\<close>: the transaction's inputs, each with its list \<open>x_pubkeys\<close>;
  \<open>x_to_xpub\<close> (of \<open>electrum.transaction\<close>) is an argument and may return \<open>None\<close>.
\<close>

record tx =
  raw :: string
  inputs :: "string list list"

definition cosigner_can_sign :: "(string \<Rightarrow> string option) \<Rightarrow> tx \<Rightarrow> string \<Rightarrow> bool" where
  "cosigner_can_sign x_to_xpub t cosigner_xpub =
     (cosigner_xpub \<in> set (concat (map (\<lambda>x_pubkeys.
        concat (map (\<lambda>x_pubkey. if truthy (x_to_xpub x_pubkey)
                                 then (case x_to_xpub x_pubkey of Some xpub \<Rightarrow> [xpub] | None \<Rightarrow> [])
                                 else []) x_pubkeys)) (inputs t))))"

definition msg_failed :: string where
  "msg_failed = ''Failed to send transaction to cosigning pool.''"

definition msg_sent :: string where
  "msg_sent = ''Your transaction was sent to the cosigning pool.'' @ [CHR 0x0A] @
              ''Open your cosigner wallet to retrieve it.''"

text \<open>
  \<open>do_send\<close> over \<open>self.cosigner_list\<close>. \<open>bitcoin.encrypt_message\<close> and the outcome of
  \<open>server.put(_hash, message)\<close> are arguments.
\<close>

fun do_send :: "(string \<Rightarrow> string option) \<Rightarrow> (string \<Rightarrow> string \<Rightarrow> string) \<Rightarrow>
    (keyhash \<Rightarrow> string \<Rightarrow> unit outcome) \<Rightarrow> tx \<Rightarrow> (window \<times> string \<times> string \<times> keyhash) list \<Rightarrow> event list" where
  "do_send x_to_xpub encrypt_message server_put t [] = []"
| "do_send x_to_xpub encrypt_message server_put t ((window, xpub, K, hash) # rest) =
     (if \<not> cosigner_can_sign x_to_xpub t xpub
      then do_send x_to_xpub encrypt_message server_put t rest
      else let message = encrypt_message (raw t) K in
        (case server_put hash message of
           Raises \<Rightarrow> [ServerPut hash message, PrintTraceback, ShowMessage window msg_failed]
         | Returns _ \<Rightarrow>
             [ServerPut hash message, ShowMessage window msg_sent]
               @ do_send x_to_xpub encrypt_message server_put t rest))"

text \<open>
  The wallets and windows that \<open>update\<close> reads. A wallet and a window are Python objects:
  \<open>wallet_ref\<close> and \<open>window_ref\<close> are their identities (the dictionary of
  \<open>available_wallets\<close> is keyed by the wallet object). The two dictionaries of master keys
  are lists of items with distinct keys.
\<close>

record wallet =
  wallet_ref :: nat
  wallet_type :: string
  master_public_keys :: "(key \<times> string) list"
  master_private_keys :: "(key \<times> string) list"

record window_obj =
  window_ref :: window
  wallet_of :: wallet

text \<open>\<open>result[window.wallet] = window\<close>.\<close>

fun dict_set :: "wallet \<Rightarrow> window_obj \<Rightarrow> (wallet \<times> window_obj) list \<Rightarrow> (wallet \<times> window_obj) list" where
  "dict_set w v [] = [(w, v)]"
| "dict_set w v ((w', v') # rest) =
     (if wallet_ref w' = wallet_ref w then (w', v) # rest else (w', v') # dict_set w v rest)"

fun available_wallets_loop :: "window_obj list \<Rightarrow> (wallet \<times> window_obj) list \<Rightarrow> (wallet \<times> window_obj) list" where
  "available_wallets_loop [] result = result"
| "available_wallets_loop (window # rest) result =
     available_wallets_loop rest
       (if wallet_type (wallet_of window) \<in> set [''2of2'', ''2of3'']
        then dict_set (wallet_of window) window result else result)"

definition available_wallets :: "window_obj list \<Rightarrow> (wallet \<times> window_obj) list" where
  "available_wallets windows = available_wallets_loop windows []"

text \<open>Python's \<open>encode('hex')\<close>: two lower-case hexadecimal digits for each byte.\<close>

definition hex_digit :: "nat \<Rightarrow> char" where
  "hex_digit n = ''0123456789abcdef'' ! (n mod 16)"

definition hexlify :: "string \<Rightarrow> string" where
  "hexlify s = concat (map (\<lambda>c. [hex_digit (of_char c div 16), hex_digit (of_char c)]) s)"

text \<open>
  The two loops of \<open>update\<close>. The helpers \<open>bitcoin.deserialize_xkey\<close> (here the last
  component of its result) and \<open>bitcoin.Hash\<close> are arguments.
  \<open>wallet.master_private_keys.get(key)\<close> is \<open>None\<close> or a string.
\<close>

fun keys_loop :: "(string \<Rightarrow> string) \<Rightarrow> (string \<Rightarrow> string) \<Rightarrow> wallet \<Rightarrow> window_obj \<Rightarrow> (key \<times> string) list \<Rightarrow>
    (key \<times> keyhash \<times> window) list \<times> (window \<times> string \<times> string \<times> keyhash) list \<Rightarrow>
    (key \<times> keyhash \<times> window) list \<times> (window \<times> string \<times> string \<times> keyhash) list" where
  "keys_loop deserialize_xkey Hash w window [] (ks, cl) = (ks, cl)"
| "keys_loop deserialize_xkey Hash w window ((key, xpub) # rest) (ks, cl) =
     (let K = hexlify (deserialize_xkey xpub);
          hash = hexlify (Hash K)
      in if truthy (map_of (master_private_keys w) key)
         then keys_loop deserialize_xkey Hash w window rest (ks @ [(key, hash, window_ref window)], cl)
         else keys_loop deserialize_xkey Hash w window rest (ks, cl @ [(window_ref window, xpub, K, hash)]))"

fun wallets_loop :: "(string \<Rightarrow> string) \<Rightarrow> (string \<Rightarrow> string) \<Rightarrow> (wallet \<times> window_obj) list \<Rightarrow>
    (key \<times> keyhash \<times> window) list \<times> (window \<times> string \<times> string \<times> keyhash) list \<Rightarrow>
    (key \<times> keyhash \<times> window) list \<times> (window \<times> string \<times> string \<times> keyhash) list" where
  "wallets_loop deserialize_xkey Hash [] acc = acc"
| "wallets_loop deserialize_xkey Hash ((w, window) # rest) acc =
     wallets_loop deserialize_xkey Hash rest
       (keys_loop deserialize_xkey Hash w window (master_public_keys w) acc)"

text \<open>
  \<open>Plugin.update\<close>: the listener is started when there is a wallet and no listener, and
  stopped and dropped when there is a listener and no wallet; both lists are rebuilt;
  the listener, if there is one, gets the key hashes of \<open>self.keys\<close>.
\<close>

definition update :: "(string \<Rightarrow> string) \<Rightarrow> (string \<Rightarrow> string) \<Rightarrow> window_obj list \<Rightarrow> plugin \<Rightarrow> event list \<times> plugin" where
  "update deserialize_xkey Hash windows p =
     (let wallets = available_wallets windows;
          (ev, lst) =
            (if wallets \<noteq> [] then
               (if listener p = None
                then ([PrintError [''starting listener''], ThreadStart], Some (start Listener_init))
                else ([], listener p))
             else if listener p \<noteq> None
             then ([PrintError [''shutting down listener'']], None)
             else ([], listener p));
          (ks, cl) = wallets_loop deserialize_xkey Hash wallets ([], [])
      in (ev, \<lparr>listener = map_option (set_keyhashes (map (\<lambda>(key, hash, window). hash) ks)) lst,
               keys = ks, cosigner_list = cl\<rparr>))"

subsection \<open>The listener thread and the GUI thread together\<close>

text \<open>
  One run of a listener: its fields, its place in the loop, and the queue of emitted
  signals that the GUI thread has not handled yet (the signal crosses from the listener
  thread to the thread of the receiving object).
\<close>

record sys =
  lst :: listener
  pc :: control
  queue :: "(keyhash \<times> string) list"

text \<open>
  What may happen next: the listener thread makes a step; the GUI thread calls
  \<open>set_keyhashes\<close> (from \<open>update\<close>), or gives the stop signal (the first thing that
  \<open>stop\<close> does; \<open>stop\<close> as a whole, with its wait, follows below), or handles the oldest
  queued signal in \<open>on_receive\<close>, with the list \<open>self.keys\<close> of that moment.
\<close>

datatype action =
    Tick "string option outcome"
  | SetKeyhashes "keyhash list"
  | StopSignal
  | Deliver env "(key \<times> keyhash \<times> window) list"

fun emitted :: "event list \<Rightarrow> (keyhash \<times> string) list" where
  "emitted [] = []"
| "emitted (Emit keyhash message # rest) = (keyhash, message) # emitted rest"
| "emitted (_ # rest) = emitted rest"

fun sys_step :: "action \<Rightarrow> sys \<Rightarrow> event list \<times> sys" where
  "sys_step (Tick got) s =
     (case listener_step got (lst s) (pc s) of
        (ev, l', c') \<Rightarrow> (ev, s\<lparr>lst := l', pc := c', queue := queue s @ emitted ev\<rparr>))"
| "sys_step (SetKeyhashes ks) s = ([], s\<lparr>lst := set_keyhashes ks (lst s)\<rparr>)"
| "sys_step StopSignal s = ([], s\<lparr>lst := signal_stop (lst s)\<rparr>)"
| "sys_step (Deliver e ks) s =
     (case queue s of
        [] \<Rightarrow> ([], s)
      | (keyhash, message) # rest \<Rightarrow>
          (case on_receive e \<lparr>listener = Some (lst s), keys = ks, cosigner_list = []\<rparr> keyhash message of
             (ev, p', x) \<Rightarrow>
               (ev, s\<lparr>lst := (case listener p' of Some l' \<Rightarrow> l' | None \<Rightarrow> lst s), queue := rest\<rparr>)))"

fun run_actions :: "action list \<Rightarrow> sys \<Rightarrow> event list \<times> sys" where
  "run_actions [] s = ([], s)"
| "run_actions (a # as) s =
     (case sys_step a s of
        (ev, s') \<Rightarrow> (case run_actions as s' of (evs, s'') \<Rightarrow> (ev @ evs, s'')))"

text \<open>
  The steps that a listener whose flag is cleared needs at most to leave its loop: two
  for each key hash of the pass in flight (the poll and the emission of the signal),
  one to end the pass and one to test the flag.
\<close>

fun wait_bound :: "control \<Rightarrow> nat" where
  "wait_bound Exited = 0"
| "wait_bound AtWhile = 1"
| "wait_bound (InFor rest) = 2 * length rest + 2"
| "wait_bound (Notify keyhash message rest) = 2 * length rest + 3"

text \<open>
  Modelled from the spec: \<open>stop\<close> of the absent base class \<open>util.DaemonThread\<close>. In the
  spec, \<open>stop()\<close> "terminates the loop; any in-flight poll is allowed to finish", and it
  "must guarantee no further notifications are emitted once it returns (bounded wait
  for the in-flight poll to observe the stop signal)". So \<open>stop\<close> gives the stop
  signal and waits while the listener thread takes the steps of \<open>run\<close> that bring it out
  of its loop, at most \<open>wait_bound\<close> many; the first argument is what \<open>server.get\<close> does in
  each of these steps.
\<close>

definition stop :: "(nat \<Rightarrow> string option outcome) \<Rightarrow> sys \<Rightarrow> event list \<times> sys" where
  "stop server_get s =
     run_actions (StopSignal # map (\<lambda>i. Tick (server_get i)) [0..<wait_bound (pc s)]) s"

subsection \<open>Predicates on the state of a run\<close>

text \<open>
  The ways in which the user declines a received message in \<open>on_receive\<close>: the password
  dialog returns nothing or an empty password, the question dialog is refused, or the
  wallet returns no private key.
\<close>

definition declines :: "env \<Rightarrow> window \<Rightarrow> key \<Rightarrow> bool" where
  "declines e window key =
     ((use_encryption e window \<and> \<not> truthy (password_dialog e window)) \<or>
      (\<not> use_encryption e window \<and> \<not> question e window) \<or>
      \<not> truthy (get_master_private_key e window key
           (if use_encryption e window then password_dialog e window else None)))"

text \<open>The listener has added the key hash and is about to emit the signal for it.\<close>

fun notifying :: "keyhash \<Rightarrow> control \<Rightarrow> bool" where
  "notifying k (Notify k' m rest) = (k' = k)"
| "notifying k _ = False"

text \<open>The state of a run right after \<open>Listener(self)\<close> and \<open>start()\<close>.\<close>

definition sys_init :: sys where
  "sys_init = \<lparr>lst = start Listener_init, pc = AtWhile, queue = []\<rparr>"

text \<open>
  \<open>quiet\<close>: the key hash is in the received set and its signal is not about to be
  emitted. \<open>settled\<close>: moreover no signal for it waits in the queue. \<open>wf\<close>: what holds in
  every state of a run (the key hash of a signal that is queued or about to be emitted is
  in the received set, and it is queued at most once).
\<close>

definition quiet :: "keyhash \<Rightarrow> sys \<Rightarrow> bool" where
  "quiet k s = (k \<in> received (lst s) \<and> \<not> notifying k (pc s))"

definition settled :: "keyhash \<Rightarrow> sys \<Rightarrow> bool" where
  "settled k s = (quiet k s \<and> k \<notin> fst ` set (queue s))"

definition wf :: "sys \<Rightarrow> bool" where
  "wf s = ((\<forall>k. notifying k (pc s) \<longrightarrow> k \<in> received (lst s) \<and> k \<notin> fst ` set (queue s)) \<and>
           fst ` set (queue s) \<subseteq> received (lst s) \<and> distinct (map fst (queue s)))"

text \<open>
  The seconds that a list of events sleeps in total, and the signals in it for one key
  hash.
\<close>

fun slept :: "event list \<Rightarrow> nat" where
  "slept [] = 0"
| "slept (Sleep n # rest) = n + slept rest"
| "slept (_ # rest) = slept rest"

definition notifications :: "keyhash \<Rightarrow> event list \<Rightarrow> (keyhash \<times> string) list" where
  "notifications k evs = filter (\<lambda>km. fst km = k) (emitted evs)"

text \<open>An \<open>x_to_xpub\<close> for concrete transactions: two known keys, \<open>None\<close> for the rest.\<close>

definition x_to_xpub0 :: "string \<Rightarrow> string option" where
  "x_to_xpub0 x = (if x = ''xA'' then Some ''xpubA'' else if x = ''xB'' then Some ''xpubB'' else None)"

text \<open>
  The directory as the spec describes it, to be compared with the loops of \<open>update\<close>:
  the key hash of a public key, whether the wallet has private material for a key, and
  the entries that one wallet with its window contributes to the "mine" side (keys with
  private material) and to the "theirs" side (the others).
\<close>

definition keyhash_of :: "(string \<Rightarrow> string) \<Rightarrow> (string \<Rightarrow> string) \<Rightarrow> string \<Rightarrow> keyhash" where
  "keyhash_of deserialize_xkey Hash xpub = hexlify (Hash (hexlify (deserialize_xkey xpub)))"

definition has_private :: "wallet \<Rightarrow> key \<Rightarrow> bool" where
  "has_private w key = truthy (map_of (master_private_keys w) key)"

definition mine_of :: "(string \<Rightarrow> string) \<Rightarrow> (string \<Rightarrow> string) \<Rightarrow> wallet \<times> window_obj \<Rightarrow> (key \<times> keyhash \<times> window) list" where
  "mine_of D H = (\<lambda>(w, window).
     map (\<lambda>(key, xpub). (key, keyhash_of D H xpub, window_ref window))
         (filter (\<lambda>(key, xpub). has_private w key) (master_public_keys w)))"

definition theirs_of :: "(string \<Rightarrow> string) \<Rightarrow> (string \<Rightarrow> string) \<Rightarrow> wallet \<times> window_obj \<Rightarrow> (window \<times> string \<times> string \<times> keyhash) list" where
  "theirs_of D H = (\<lambda>(w, window).
     map (\<lambda>(key, xpub). (window_ref window, xpub, hexlify (D xpub), keyhash_of D H xpub))
         (filter (\<lambda>(key, xpub). \<not> has_private w key) (master_public_keys w)))"

text \<open>The key hashes that the pass in flight may still emit a signal for.\<close>

fun pending_keys :: "control \<Rightarrow> keyhash list" where
  "pending_keys AtWhile = []"
| "pending_keys (InFor rest) = rest"
| "pending_keys (Notify keyhash message rest) = keyhash # rest"
| "pending_keys Exited = []"

subsection \<open>Identifier derivation\<close>

text \<open>The error of the spec's \<open>derive\<close>.\<close>

datatype key_error = InvalidKey

text \<open>
  Modelled from the spec: the functions that derive an identifier from key material,
  \<open>bitcoin.deserialize_xkey\<close> and \<open>bitcoin.Hash\<close>, are not in the file; \<open>update\<close> only calls
  them and neither checks their argument nor handles an error of theirs. In the spec,
  \<open>derive(pubkeyBytes)\<close> "applies a cryptographic hash function to the raw public-key
  bytes and returns the digest", and malformed input (empty or invalid key material)
  "must fail with an \<open>InvalidKey\<close> error". The hash function and the test for valid key
  material are arguments.
\<close>

definition derive :: "(string \<Rightarrow> bool) \<Rightarrow> (string \<Rightarrow> string) \<Rightarrow> string \<Rightarrow> key_error + keyhash" where
  "derive valid_key hash pubkey =
     (if pubkey = [] \<or> \<not> valid_key pubkey then Inl InvalidKey else Inr (hash pubkey))"

text \<open>
  An action in which no \<open>server.get\<close> succeeds (a step of the listener in which \<open>get\<close>
  raises if it is called, or an action of the GUI thread), and a listener that stands
  between \<open>self.received.add\<close> and the emission of the signal.
\<close>

fun get_fails :: "action \<Rightarrow> bool" where
  "get_fails (Tick got) = (got = Raises)"
| "get_fails _ = True"

fun emitting :: "control \<Rightarrow> bool" where
  "emitting (Notify keyhash message rest) = True"
| "emitting _ = False"

section \<open>Properties\<close>

subsection \<open>Steps of the listener and of the receive handler\<close>

lemma listener_step_frame:
  "listener_step got l c = (ev, l', c') \<Longrightarrow>
     received l \<subseteq> received l' \<and> keyhashes l' = keyhashes l \<and> running l' = running l"
  by (induction got l c rule: listener_step.induct)
     (auto split: if_splits outcome.splits option.splits)

lemma listener_step_emit:
  "listener_step got l c = (ev, l', c') \<Longrightarrow> Emit k m \<in> set ev \<Longrightarrow> (\<exists>rest. c = Notify k m rest)"
  by (induction got l c rule: listener_step.induct)
     (auto split: if_splits outcome.splits option.splits)

lemma listener_step_emitted:
  "listener_step got l c = (ev, l', c') \<Longrightarrow>
     emitted ev = (case c of Notify k m rest \<Rightarrow> [(k, m)] | _ \<Rightarrow> [])"
  by (induction got l c rule: listener_step.induct)
     (auto split: if_splits outcome.splits option.splits)

lemma listener_step_notifying:
  "listener_step got l c = (ev, l', c') \<Longrightarrow> notifying k c' \<Longrightarrow> k \<notin> received l \<and> k \<in> received l'"
  by (induction got l c rule: listener_step.induct)
     (auto split: if_splits outcome.splits option.splits)

lemma listener_step_no_delete:
  "listener_step got l c = (ev, l', c') \<Longrightarrow> ServerDelete k \<notin> set ev"
  by (induction got l c rule: listener_step.induct)
     (auto split: if_splits outcome.splits option.splits)

lemma clear_cases:
  "clear d k l = (ev, l', x) \<Longrightarrow>
     ev = [ServerDelete k] \<and> keyhashes l' = keyhashes l \<and> running l' = running l \<and>
     (received l' = received l \<or> received l' = received l - {k})"
  by (auto simp: clear_def split: outcome.splits if_splits)


lemma clear_and_show_cases:
  assumes "clear_and_show e p k w payload = (ev, p', x)" and "listener p = Some l"
  shows "keys p' = keys p \<and> (\<forall>k' m'. Emit k' m' \<notin> set ev) \<and>
     (\<exists>l'. listener p' = Some l' \<and> keyhashes l' = keyhashes l \<and> running l' = running l \<and>
        (received l' = received l \<or> (received l' = received l - {k} \<and> ServerDelete k \<in> set ev)))"
proof (cases "clear (server_delete e k) k l")
  case (fields ev0 l0 x0)
  from clear_cases [OF fields] have ev0: "ev0 = [ServerDelete k]"
    and fr: "keyhashes l0 = keyhashes l" "running l0 = running l"
    and rc: "received l0 = received l \<or> received l0 = received l - {k}" by simp_all
  show ?thesis
  proof (cases x0)
    case None
    with assms fields ev0 have "ev = [ServerDelete k, ShowTransaction w payload]" "p' = p\<lparr>listener := Some l0\<rparr>"
      by (simp_all add: clear_and_show_def)
    with fr rc show ?thesis by auto
  next
    case (Some y)
    with assms fields ev0 have "ev = [ServerDelete k]" "p' = p\<lparr>listener := Some l0\<rparr>"
      by (simp_all add: clear_and_show_def)
    with fr rc show ?thesis by auto
  qed
qed

lemma on_receive_shape:
  "on_receive e p k m = (ev, p', x) \<Longrightarrow>
     (p' = p \<and> x = None \<and> (\<forall>k'. ServerDelete k' \<notin> set ev) \<and> (\<forall>k' m'. Emit k' m' \<notin> set ev)) \<or>
     (\<exists>w payload ev'. clear_and_show e p k w payload = (ev', p', x) \<and>
        ev = PrintError [''signal arrived for'', k] # ev')"
  unfolding on_receive_def Let_def
  by (simp split: option.splits prod.splits if_splits sum.splits) auto

lemma on_receive_cases:
  assumes "on_receive e p k m = (ev, p', x)" and "listener p = Some l"
  shows "keys p' = keys p \<and> (\<forall>k' m'. Emit k' m' \<notin> set ev) \<and>
     (\<exists>l'. listener p' = Some l' \<and> keyhashes l' = keyhashes l \<and> running l' = running l \<and>
        (received l' = received l \<or> (received l' = received l - {k} \<and> ServerDelete k \<in> set ev)))"
  using on_receive_shape [OF assms(1)]
proof (elim disjE exE conjE)
  assume "p' = p" "x = None" "\<forall>k' m'. Emit k' m' \<notin> set ev"
  with assms(2) show ?thesis by simp
next
  fix w payload ev'
  assume cs: "clear_and_show e p k w payload = (ev', p', x)"
    and ev: "ev = PrintError [''signal arrived for'', k] # ev'"
  from clear_and_show_cases [OF cs assms(2)] ev show ?thesis by auto
qed


lemma sys_step_Tick:
  assumes "sys_step (Tick got) s = (ev, s')"
  obtains l' c' where "listener_step got (lst s) (pc s) = (ev, l', c')"
    and "s' = s\<lparr>lst := l', pc := c', queue := queue s @ emitted ev\<rparr>"
  using assms by (cases "listener_step got (lst s) (pc s)") auto

lemma sys_step_Deliver:
  assumes "sys_step (Deliver e ks) s = (ev, s')" and "queue s = (k, m) # rest"
  obtains l' where "s' = s\<lparr>lst := l', queue := rest\<rparr>"
    and "keyhashes l' = keyhashes (lst s)" and "running l' = running (lst s)"
    and "received l' = received (lst s) \<or> (received l' = received (lst s) - {k} \<and> ServerDelete k \<in> set ev)"
    and "\<forall>k' m'. Emit k' m' \<notin> set ev"
proof -
  let ?p = "\<lparr>listener = Some (lst s), keys = ks, cosigner_list = []\<rparr>"
  obtain ev0 p' x where r: "on_receive e ?p k m = (ev0, p', x)"
    by (cases "on_receive e ?p k m") auto
  have lp: "listener ?p = Some (lst s)" by simp
  from on_receive_cases [OF r lp] obtain l' where
    l': "listener p' = Some l'" "keyhashes l' = keyhashes (lst s)" "running l' = running (lst s)"
      "received l' = received (lst s) \<or> (received l' = received (lst s) - {k} \<and> ServerDelete k \<in> set ev0)"
    and ne: "\<forall>k' m'. Emit k' m' \<notin> set ev0" by auto
  from assms r l' have "ev = ev0" "s' = s\<lparr>lst := l', queue := rest\<rparr>" by simp_all
  with l' ne that show thesis by blast
qed

lemma sys_step_quiet:
  assumes "quiet k s" and "sys_step a s = (ev, s')"
  shows "(\<forall>m. Emit k m \<notin> set ev) \<and> (quiet k s' \<or> ServerDelete k \<in> set ev)"
proof (cases a)
  case (Tick got)
  with assms(2) have "sys_step (Tick got) s = (ev, s')" by simp
  then obtain l' c' where st: "listener_step got (lst s) (pc s) = (ev, l', c')"
    and s': "s' = s\<lparr>lst := l', pc := c', queue := queue s @ emitted ev\<rparr>"
    by (rule sys_step_Tick)
  have "Emit k m \<notin> set ev" for m
    using listener_step_emit [OF st, of k m] assms(1) by (auto simp: quiet_def)
  moreover have "k \<in> received l'"
    using listener_step_frame [OF st] assms(1) by (auto simp: quiet_def)
  moreover have "\<not> notifying k c'"
    using listener_step_notifying [OF st, of k] assms(1) by (auto simp: quiet_def)
  ultimately show ?thesis using s' by (simp add: quiet_def)
next
  case (SetKeyhashes ks)
  with assms show ?thesis by (auto simp: quiet_def set_keyhashes_def)
next
  case StopSignal
  with assms show ?thesis by (auto simp: quiet_def signal_stop_def)
next
  case (Deliver e ks)
  show ?thesis
  proof (cases "queue s")
    case Nil
    with Deliver assms show ?thesis by auto
  next
    case (Cons km rest)
    obtain k0 m0 where km: "km = (k0, m0)" by (cases km)
    have q: "queue s = (k0, m0) # rest" using Cons km by simp
    have d: "sys_step (Deliver e ks) s = (ev, s')" using assms(2) Deliver by simp
    obtain l' where "s' = s\<lparr>lst := l', queue := rest\<rparr>"
      and "received l' = received (lst s) \<or> (received l' = received (lst s) - {k0} \<and> ServerDelete k0 \<in> set ev)"
      and "\<forall>k' m'. Emit k' m' \<notin> set ev"
      by (rule sys_step_Deliver [OF d q])
    with assms(1) show ?thesis by (cases "k0 = k") (auto simp: quiet_def)
  qed
qed

subsection \<open>Runs\<close>

lemma run_actions_Cons:
  "sys_step a s = (ev, s') \<Longrightarrow> run_actions as s' = (evs, s'') \<Longrightarrow>
     run_actions (a # as) s = (ev @ evs, s'')"
  by simp

lemma run_actions_append:
  "run_actions (as @ bs) s =
     (case run_actions as s of (ev, s') \<Rightarrow> (case run_actions bs s' of (evs, s'') \<Rightarrow> (ev @ evs, s'')))"
  by (induction as arbitrary: s) (auto split: prod.splits)

lemma run_quiet:
  "quiet k s \<Longrightarrow> Emit k m \<notin> set (takeWhile (\<lambda>e. e \<noteq> ServerDelete k) (fst (run_actions as s)))"
proof (induction as arbitrary: s)
  case Nil
  then show ?case by simp
next
  case (Cons a as)
  obtain ev s' where st: "sys_step a s = (ev, s')" by (cases "sys_step a s")
  obtain evs s'' where rn: "run_actions as s' = (evs, s'')" by (cases "run_actions as s'")
  from sys_step_quiet [OF Cons.prems st]
  have ne: "Emit k m \<notin> set ev" and alt: "quiet k s' \<or> ServerDelete k \<in> set ev" by auto
  have run: "fst (run_actions (a # as) s) = ev @ evs" using st rn by simp
  show ?case
  proof (cases "ServerDelete k \<in> set ev")
    case True
    have "takeWhile (\<lambda>e. e \<noteq> ServerDelete k) (ev @ evs) = takeWhile (\<lambda>e. e \<noteq> ServerDelete k) ev"
      by (rule takeWhile_append1 [OF True]) simp
    with ne run show ?thesis by (auto dest: set_takeWhileD)
  next
    case False
    then have "takeWhile (\<lambda>e. e \<noteq> ServerDelete k) (ev @ evs) = ev @ takeWhile (\<lambda>e. e \<noteq> ServerDelete k) evs"
      by (intro takeWhile_append2) auto
    moreover from False alt have "quiet k s'" by simp
    from Cons.IH [OF this] rn have "Emit k m \<notin> set (takeWhile (\<lambda>e. e \<noteq> ServerDelete k) evs)" by simp
    ultimately show ?thesis using ne run by simp
  qed
qed

subsection \<open>What holds in every state of a run\<close>

lemma wf_alt:
  "wf s \<longleftrightarrow>
     (\<forall>k. notifying k (pc s) \<longrightarrow> k \<in> received (lst s)) \<and>
     (\<forall>k m. (k, m) \<in> set (queue s) \<longrightarrow> k \<in> received (lst s) \<and> \<not> notifying k (pc s)) \<and>
     distinct (map fst (queue s))"
  unfolding wf_def by (rule iffI; force)

lemma wf_init: "wf sys_init"
  by (simp add: wf_alt sys_init_def)

lemma wf_Tick:
  assumes w: "wf s" and st: "listener_step got (lst s) (pc s) = (ev, l', c')"
  shows "wf (s\<lparr>lst := l', pc := c', queue := queue s @ emitted ev\<rparr>)"
proof (cases "\<exists>k0 m0 rest0. pc s = Notify k0 m0 rest0")
  case True
  then obtain k0 m0 rest0 where n: "pc s = Notify k0 m0 rest0" by blast
  with st have r: "l' = lst s" "c' = InFor rest0" "emitted ev = [(k0, m0)]" by auto
  from w n have k0: "k0 \<in> received (lst s)" "\<forall>m. (k0, m) \<notin> set (queue s)"
    by (auto simp: wf_alt)
  from k0(2) have nin: "k0 \<notin> fst ` set (queue s)" by force
  from w have old: "\<forall>k m. (k, m) \<in> set (queue s) \<longrightarrow> k \<in> received (lst s)"
    and d: "distinct (map fst (queue s))" by (auto simp: wf_alt)
  show ?thesis unfolding wf_alt r using k0(1) nin old d by auto
next
  case False
  then have "emitted ev = []" using listener_step_emitted [OF st] by (cases "pc s") auto
  moreover have mono: "received (lst s) \<subseteq> received l'" using listener_step_frame [OF st] by simp
  moreover have n1: "\<forall>k. notifying k c' \<longrightarrow> k \<notin> received (lst s) \<and> k \<in> received l'"
    using listener_step_notifying [OF st] by blast
  moreover from w have old: "\<forall>k m. (k, m) \<in> set (queue s) \<longrightarrow> k \<in> received (lst s)"
    and d: "distinct (map fst (queue s))" by (auto simp: wf_alt)
  ultimately show ?thesis unfolding wf_alt by auto
qed

lemma wf_Deliver:
  assumes w: "wf s" and q: "queue s = (k0, m0) # rest"
    and rc: "received l' = received (lst s) \<or> received l' = received (lst s) - {k0}"
  shows "wf (s\<lparr>lst := l', queue := rest\<rparr>)"
proof -
  from w q have a: "\<not> notifying k0 (pc s)" "\<forall>m. (k0, m) \<notin> set rest"
    and b: "\<forall>k. notifying k (pc s) \<longrightarrow> k \<in> received (lst s)"
    and c: "\<forall>k m. (k, m) \<in> set rest \<longrightarrow> k \<in> received (lst s) \<and> \<not> notifying k (pc s)"
    and d: "distinct (map fst rest)"
    by (force simp: wf_alt)+
  from rc show ?thesis
  proof
    assume "received l' = received (lst s)"
    with b c d show ?thesis unfolding wf_alt by simp
  next
    assume "received l' = received (lst s) - {k0}"
    with a b c d show ?thesis unfolding wf_alt by auto
  qed
qed

lemma wf_step:
  assumes "wf s" and "sys_step a s = (ev, s')"
  shows "wf s'"
proof (cases a)
  case (Tick got)
  with assms(2) have "sys_step (Tick got) s = (ev, s')" by simp
  then obtain l' c' where st: "listener_step got (lst s) (pc s) = (ev, l', c')"
    and s': "s' = s\<lparr>lst := l', pc := c', queue := queue s @ emitted ev\<rparr>"
    by (rule sys_step_Tick)
  show ?thesis unfolding s' by (rule wf_Tick [OF assms(1) st])
next
  case (SetKeyhashes ks)
  with assms(2) have "s' = s\<lparr>lst := set_keyhashes ks (lst s)\<rparr>" by auto
  with assms(1) show ?thesis by (simp add: wf_alt set_keyhashes_def)
next
  case StopSignal
  with assms(2) have "s' = s\<lparr>lst := signal_stop (lst s)\<rparr>" by auto
  with assms(1) show ?thesis by (simp add: wf_alt signal_stop_def)
next
  case (Deliver e ks)
  show ?thesis
  proof (cases "queue s")
    case Nil
    with Deliver assms show ?thesis by auto
  next
    case (Cons km rest)
    obtain k0 m0 where km: "km = (k0, m0)" by (cases km)
    have q: "queue s = (k0, m0) # rest" using Cons km by simp
    have d: "sys_step (Deliver e ks) s = (ev, s')" using assms(2) Deliver by simp
    obtain l' where s': "s' = s\<lparr>lst := l', queue := rest\<rparr>"
      and rc: "received l' = received (lst s) \<or> (received l' = received (lst s) - {k0} \<and> ServerDelete k0 \<in> set ev)"
      by (rule sys_step_Deliver [OF d q])
    from rc have "received l' = received (lst s) \<or> received l' = received (lst s) - {k0}" by blast
    from wf_Deliver [OF assms(1) q this] show ?thesis unfolding s' .
  qed
qed

lemma wf_run: "wf s \<Longrightarrow> run_actions as s = (evs, s') \<Longrightarrow> wf s'"
proof (induction as arbitrary: s evs s')
  case Nil
  then show ?case by simp
next
  case (Cons a as)
  obtain ev s1 where st: "sys_step a s = (ev, s1)" by (cases "sys_step a s")
  obtain evs1 s2 where rn: "run_actions as s1 = (evs1, s2)" by (cases "run_actions as s1")
  from Cons.prems(2) st rn have "s' = s2" by simp
  with Cons.IH [OF wf_step [OF Cons.prems(1) st] rn] show ?case by simp
qed

lemma sys_step_emit:
  assumes "sys_step a s = (ev, s')" and "Emit k m \<in> set ev"
  shows "\<exists>got rest. a = Tick got \<and> pc s = Notify k m rest \<and>
           s' = s\<lparr>lst := lst s, pc := InFor rest, queue := queue s @ [(k, m)]\<rparr>"
proof (cases a)
  case (Tick got)
  with assms(1) have "sys_step (Tick got) s = (ev, s')" by simp
  then obtain l' c' where st: "listener_step got (lst s) (pc s) = (ev, l', c')"
    and s': "s' = s\<lparr>lst := l', pc := c', queue := queue s @ emitted ev\<rparr>"
    by (rule sys_step_Tick)
  from listener_step_emit [OF st assms(2)] obtain rest where n: "pc s = Notify k m rest" by blast
  with st have "l' = lst s" "c' = InFor rest" "emitted ev = [(k, m)]" by auto
  with s' n Tick show ?thesis by simp
next
  case (SetKeyhashes ks)
  with assms show ?thesis by auto
next
  case StopSignal
  with assms show ?thesis by auto
next
  case (Deliver e ks)
  show ?thesis
  proof (cases "queue s")
    case Nil
    with Deliver assms show ?thesis by auto
  next
    case (Cons km rest)
    obtain k0 m0 where km: "km = (k0, m0)" by (cases km)
    have q: "queue s = (k0, m0) # rest" using Cons km by simp
    have d: "sys_step (Deliver e ks) s = (ev, s')" using assms(1) Deliver by simp
    obtain l' where "s' = s\<lparr>lst := l', queue := rest\<rparr>" and "\<forall>k' m'. Emit k' m' \<notin> set ev"
      by (rule sys_step_Deliver [OF d q])
    with assms(2) show ?thesis by blast
  qed
qed

subsection \<open>A key hash that stays received\<close>

lemma on_receive_declined:
  assumes "find_key k (keys p) = Some (key, h, w)" and "declines e w key"
  shows "on_receive e p k m = ([PrintError [''signal arrived for'', k]], p, None)"
proof (cases "get_master_private_key e w key (if use_encryption e w then password_dialog e w else None)")
  case None
  with assms(1) show ?thesis by (simp add: on_receive_def Let_def)
next
  case (Some xprv)
  with assms show ?thesis by (auto simp: on_receive_def Let_def declines_def)
qed

lemma sys_step_settled:
  assumes "settled k s" and "sys_step a s = (ev, s')"
  shows "Emit k m \<notin> set ev \<and> settled k s'"
proof -
  from assms(1) have qt: "quiet k s" and nq: "k \<notin> fst ` set (queue s)" by (simp_all add: settled_def)
  from sys_step_quiet [OF qt assms(2)]
  have ne: "Emit k m \<notin> set ev" and alt: "quiet k s' \<or> ServerDelete k \<in> set ev" by auto
  have "settled k s'"
  proof (cases a)
    case (Tick got)
    with assms(2) have "sys_step (Tick got) s = (ev, s')" by simp
    then obtain l' c' where st: "listener_step got (lst s) (pc s) = (ev, l', c')"
      and s': "s' = s\<lparr>lst := l', pc := c', queue := queue s @ emitted ev\<rparr>"
      by (rule sys_step_Tick)
    from listener_step_no_delete [OF st] alt have q': "quiet k s'" by blast
    have "k \<notin> fst ` set (emitted ev)"
      using listener_step_emitted [OF st] qt by (cases "pc s") (auto simp: quiet_def)
    with nq s' q' show ?thesis by (auto simp: settled_def)
  next
    case (SetKeyhashes ks)
    with assms(2) have "s' = s\<lparr>lst := set_keyhashes ks (lst s)\<rparr>" by auto
    with assms(1) show ?thesis by (simp add: settled_def quiet_def set_keyhashes_def)
  next
    case StopSignal
    with assms(2) have "s' = s\<lparr>lst := signal_stop (lst s)\<rparr>" by auto
    with assms(1) show ?thesis by (simp add: settled_def quiet_def signal_stop_def)
  next
    case (Deliver e ks)
    show ?thesis
    proof (cases "queue s")
      case Nil
      with Deliver assms show ?thesis by auto
    next
      case (Cons km rest)
      obtain k0 m0 where km: "km = (k0, m0)" by (cases km)
      have q: "queue s = (k0, m0) # rest" using Cons km by simp
      have d: "sys_step (Deliver e ks) s = (ev, s')" using assms(2) Deliver by simp
      obtain l' where s': "s' = s\<lparr>lst := l', queue := rest\<rparr>"
        and rc: "received l' = received (lst s) \<or> (received l' = received (lst s) - {k0} \<and> ServerDelete k0 \<in> set ev)"
        by (rule sys_step_Deliver [OF d q])
      from nq q have "k0 \<noteq> k" "k \<notin> fst ` set rest" by auto
      with rc qt s' show ?thesis by (auto simp: settled_def quiet_def)
    qed
  qed
  with ne show ?thesis by simp
qed

lemma run_settled:
  "settled k s \<Longrightarrow> run_actions as s = (evs, s') \<Longrightarrow> Emit k m \<notin> set evs \<and> settled k s'"
proof (induction as arbitrary: s evs s')
  case Nil
  then show ?case by simp
next
  case (Cons a as)
  obtain ev s1 where st: "sys_step a s = (ev, s1)" by (cases "sys_step a s")
  obtain evs1 s2 where rn: "run_actions as s1 = (evs1, s2)" by (cases "run_actions as s1")
  from Cons.prems(2) st rn have e: "evs = ev @ evs1" "s' = s2" by simp_all
  from sys_step_settled [OF Cons.prems(1) st] have a: "Emit k m \<notin> set ev" "settled k s1" by simp_all
  from Cons.IH [OF a(2) rn] a(1) e show ?case by simp
qed

subsection \<open>Failing and succeeding passes\<close>

lemma notifications_none:
  "(\<And>m. Emit k m \<notin> set evs) \<Longrightarrow> notifications k evs = []"
  unfolding notifications_def
  by (induction evs rule: emitted.induct) auto

lemma failing_cycles:
  assumes "running l" and "keyhashes l = [k]" and "k \<notin> received l"
  shows "run_actions (concat (replicate n [Tick Raises, Tick Raises, Tick Raises]))
           \<lparr>lst = l, pc = AtWhile, queue = q\<rparr> =
         (concat (replicate n [PrintError [''cannot contact cosigner pool''], Sleep 30, Sleep 30]),
          \<lparr>lst = l, pc = AtWhile, queue = q\<rparr>)"
proof (induction n)
  case 0
  show ?case by simp
next
  case (Suc n)
  have one: "run_actions [Tick Raises, Tick Raises, Tick Raises] \<lparr>lst = l, pc = AtWhile, queue = q\<rparr> =
      ([PrintError [''cannot contact cosigner pool''], Sleep 30, Sleep 30], \<lparr>lst = l, pc = AtWhile, queue = q\<rparr>)"
    using assms by simp
  have "run_actions ([Tick Raises, Tick Raises, Tick Raises] @
            concat (replicate n [Tick Raises, Tick Raises, Tick Raises])) \<lparr>lst = l, pc = AtWhile, queue = q\<rparr> =
        ([PrintError [''cannot contact cosigner pool''], Sleep 30, Sleep 30] @
            concat (replicate n [PrintError [''cannot contact cosigner pool''], Sleep 30, Sleep 30]),
         \<lparr>lst = l, pc = AtWhile, queue = q\<rparr>)"
    unfolding run_actions_append [of "[Tick Raises, Tick Raises, Tick Raises]"] one using Suc.IH by simp
  then show ?case by simp
qed

lemma recovery_cycle:
  assumes "running l" and "keyhashes l = [k]" and "k \<notin> received l" and "m \<noteq> []"
  shows "run_actions [Tick (Returns (Some m)), Tick (Returns (Some m)), Tick (Returns (Some m)), Tick (Returns (Some m))]
           \<lparr>lst = l, pc = AtWhile, queue = q\<rparr> =
         ([PrintError [''received message for'', k], Emit k m, Sleep 30],
          \<lparr>lst = l\<lparr>received := insert k (received l)\<rparr>, pc = AtWhile, queue = q @ [(k, m)]\<rparr>)"
  using assms by simp

lemma notified_once:
  assumes "pc s = InFor (k # rest)" and "k \<notin> received (lst s)" and "m \<noteq> []"
  shows "notifications k (takeWhile (\<lambda>e. e \<noteq> ServerDelete k)
           (fst (run_actions (Tick (Returns (Some m)) # Tick got # as) s))) = [(k, m)]"
proof -
  let ?s2 = "s\<lparr>lst := (lst s)\<lparr>received := insert k (received (lst s))\<rparr>, pc := InFor rest,
                queue := queue s @ [(k, m)]\<rparr>"
  obtain evs s' where rn: "run_actions as ?s2 = (evs, s')" by (cases "run_actions as ?s2")
  have two: "run_actions (Tick (Returns (Some m)) # Tick got # as) s =
      ([PrintError [''received message for'', k], Emit k m] @ evs, s')"
    using assms rn by simp
  have "quiet k ?s2" by (simp add: quiet_def)
  from run_quiet [OF this, of _ as] rn
  have "\<And>m'. Emit k m' \<notin> set (takeWhile (\<lambda>e. e \<noteq> ServerDelete k) evs)" by simp
  then have "notifications k (takeWhile (\<lambda>e. e \<noteq> ServerDelete k) evs) = []"
    by (rule notifications_none)
  then show ?thesis unfolding two by (simp add: notifications_def)
qed


lemma emitted_append: "emitted (xs @ ys) = emitted xs @ emitted ys"
  by (induction xs rule: emitted.induct) auto

lemma emitted_failures:
  "emitted (concat (replicate n [PrintError [''cannot contact cosigner pool''], Sleep 30, Sleep 30])) = []"
  by (induction n) auto

subsection \<open>The receive handler after the dialogs\<close>

lemma on_receive_accepted:
  assumes f: "find_key k (keys p) = Some (key, h, w)" and nd: "\<not> declines e w key"
    and x: "get_master_private_key e w key (if use_encryption e w then password_dialog e w else None) = Some xprv"
  shows "on_receive e p k m =
     (case decrypt_message e xprv m of
        Inl err \<Rightarrow> ([PrintError [''signal arrived for'', k], PrintTraceback, ShowMessage w err], p, None)
      | Inr payload \<Rightarrow>
          (case clear_and_show e p k w payload of
             (ev, p', x) \<Rightarrow> (PrintError [''signal arrived for'', k] # ev, p', x)))"
proof -
  from nd x have ne: "xprv \<noteq> []" by (auto simp: declines_def)
  from nd have a: "\<not> (use_encryption e w \<and> \<not> truthy (password_dialog e w))"
    and b: "\<not> (\<not> use_encryption e w \<and> \<not> question e w)" by (auto simp: declines_def)
  show ?thesis
  proof (cases "use_encryption e w")
    case True
    with a have "truthy (password_dialog e w)" by simp
    with True f x ne show ?thesis by (simp add: on_receive_def Let_def)
  next
    case False
    with b have "question e w" by simp
    with False f x ne show ?thesis by (simp add: on_receive_def Let_def)
  qed
qed

subsection \<open>The loops of sending and of rebuilding\<close>

lemma do_send_all_sent:
  "(\<forall>(w, x, K, h) \<in> set cl. cosigner_can_sign X t x \<longrightarrow> P h (E (raw t) K) = Returns ()) \<Longrightarrow>
     do_send X E P t (cl @ rest) =
       concat (map (\<lambda>(w, x, K, h). [ServerPut h (E (raw t) K), ShowMessage w msg_sent])
                   (filter (\<lambda>(w, x, K, h). cosigner_can_sign X t x) cl))
       @ do_send X E P t rest"
proof (induction cl)
  case Nil
  show ?case by simp
next
  case (Cons c cl)
  obtain w x K h where c: "c = (w, x, K, h)" by (cases c)
  from Cons.prems have rest: "\<forall>(w, x, K, h) \<in> set cl. cosigner_can_sign X t x \<longrightarrow> P h (E (raw t) K) = Returns ()"
    by simp
  show ?case
  proof (cases "cosigner_can_sign X t x")
    case True
    with Cons.prems c have "P h (E (raw t) K) = Returns ()" by simp
    with True c Cons.IH [OF rest] show ?thesis by (simp add: Let_def)
  next
    case False
    with c Cons.IH [OF rest] show ?thesis by simp
  qed
qed

lemma keys_loop_eq:
  "keys_loop D H w window items (ks, cl) =
     (ks @ map (\<lambda>(key, xpub). (key, keyhash_of D H xpub, window_ref window))
             (filter (\<lambda>(key, xpub). has_private w key) items),
      cl @ map (\<lambda>(key, xpub). (window_ref window, xpub, hexlify (D xpub), keyhash_of D H xpub))
             (filter (\<lambda>(key, xpub). \<not> has_private w key) items))"
proof (induction items arbitrary: ks cl)
  case Nil
  show ?case by simp
next
  case (Cons i items)
  obtain key xpub where i: "i = (key, xpub)" by (cases i)
  show ?case unfolding i
    by (cases "has_private w key") (simp_all add: Cons.IH Let_def has_private_def keyhash_of_def)
qed

lemma wallets_loop_eq:
  "wallets_loop D H wallets (ks, cl) =
     (ks @ concat (map (mine_of D H) wallets), cl @ concat (map (theirs_of D H) wallets))"
proof (induction wallets arbitrary: ks cl)
  case Nil
  show ?case by simp
next
  case (Cons c wallets)
  obtain w window where c: "c = (w, window)" by (cases c)
  show ?case unfolding c
    by (simp add: keys_loop_eq Cons.IH mine_of_def theirs_of_def)
qed

lemma update_lists:
  "keys (snd (update D H windows p)) = concat (map (mine_of D H) (available_wallets windows)) \<and>
   cosigner_list (snd (update D H windows p)) = concat (map (theirs_of D H) (available_wallets windows))"
  by (simp add: update_def Let_def wallets_loop_eq split: prod.splits)

lemma update_listener:
  "listener (snd (update D H windows p)) =
     (if available_wallets windows = [] then None
      else Some (set_keyhashes (map (\<lambda>(key, hash, window). hash) (keys (snd (update D H windows p))))
                  (case listener p of None \<Rightarrow> start Listener_init | Some l \<Rightarrow> l)))"
  by (cases "listener p") (simp_all add: update_def Let_def wallets_loop_eq split: prod.splits)

subsection \<open>A stopped listener\<close>

lemma listener_step_stopped:
  "listener_step got l c = (ev, l', c') \<Longrightarrow> \<not> running l \<Longrightarrow>
     set (pending_keys c') \<subseteq> set (pending_keys c)"
  by (induction got l c rule: listener_step.induct)
     (auto split: if_splits outcome.splits option.splits)

lemma sys_step_stopped:
  assumes "\<not> running (lst s)" and "sys_step a s = (ev, s')"
  shows "\<not> running (lst s') \<and> set (pending_keys (pc s')) \<subseteq> set (pending_keys (pc s)) \<and>
         (Emit k m \<in> set ev \<longrightarrow> k \<in> set (pending_keys (pc s)))"
proof (cases a)
  case (Tick got)
  with assms(2) have "sys_step (Tick got) s = (ev, s')" by simp
  then obtain l' c' where st: "listener_step got (lst s) (pc s) = (ev, l', c')"
    and s': "s' = s\<lparr>lst := l', pc := c', queue := queue s @ emitted ev\<rparr>"
    by (rule sys_step_Tick)
  have "Emit k m \<in> set ev \<longrightarrow> k \<in> set (pending_keys (pc s))"
    using listener_step_emit [OF st, of k m] by auto
  with listener_step_frame [OF st] listener_step_stopped [OF st assms(1)] assms(1) s'
  show ?thesis by simp
next
  case (SetKeyhashes ks)
  with assms(2) have "s' = s\<lparr>lst := set_keyhashes ks (lst s)\<rparr>" "ev = []" by auto
  with assms(1) show ?thesis by (simp add: set_keyhashes_def)
next
  case StopSignal
  with assms(2) have "s' = s\<lparr>lst := signal_stop (lst s)\<rparr>" "ev = []" by auto
  with assms(1) show ?thesis by (simp add: signal_stop_def)
next
  case (Deliver e ks)
  show ?thesis
  proof (cases "queue s")
    case Nil
    with Deliver assms show ?thesis by auto
  next
    case (Cons km rest)
    obtain k0 m0 where km: "km = (k0, m0)" by (cases km)
    have q: "queue s = (k0, m0) # rest" using Cons km by simp
    have d: "sys_step (Deliver e ks) s = (ev, s')" using assms(2) Deliver by simp
    obtain l' where "s' = s\<lparr>lst := l', queue := rest\<rparr>" and "running l' = running (lst s)"
      and "\<forall>k' m'. Emit k' m' \<notin> set ev"
      by (rule sys_step_Deliver [OF d q])
    with assms(1) show ?thesis by simp
  qed
qed

lemma run_stopped:
  "\<not> running (lst s) \<Longrightarrow> run_actions as s = (evs, s') \<Longrightarrow> Emit k m \<in> set evs \<Longrightarrow>
     k \<in> set (pending_keys (pc s))"
proof (induction as arbitrary: s evs s')
  case Nil
  then show ?case by simp
next
  case (Cons a as)
  obtain ev s1 where st: "sys_step a s = (ev, s1)" by (cases "sys_step a s")
  obtain evs1 s2 where rn: "run_actions as s1 = (evs1, s2)" by (cases "run_actions as s1")
  from Cons.prems(2) st rn have e: "evs = ev @ evs1" by simp
  from sys_step_stopped [OF Cons.prems(1) st, of k m]
  have a: "\<not> running (lst s1)" and b: "set (pending_keys (pc s1)) \<subseteq> set (pending_keys (pc s))"
    and c: "Emit k m \<in> set ev \<longrightarrow> k \<in> set (pending_keys (pc s))" by simp_all
  from Cons.prems(3) e have "Emit k m \<in> set ev \<or> Emit k m \<in> set evs1" by simp
  then show ?case
  proof
    assume "Emit k m \<in> set ev"
    with c show ?thesis by simp
  next
    assume "Emit k m \<in> set evs1"
    from Cons.IH [OF a rn this] b show ?thesis by blast
  qed
qed

subsection \<open>The wait of stop\<close>

lemma emitted_none: "(\<And>k m. Emit k m \<notin> set ev) \<Longrightarrow> emitted ev = []"
  by (induction ev rule: emitted.induct) auto

lemma wait_bound_step:
  "listener_step got l c = (ev, l', c') \<Longrightarrow> \<not> running l \<Longrightarrow> wait_bound c' \<le> wait_bound c - 1"
  by (induction got l c rule: listener_step.induct)
     (auto split: if_splits outcome.splits option.splits)

lemma ticks_exit:
  "\<not> running (lst s) \<Longrightarrow> wait_bound (pc s) \<le> length rs \<Longrightarrow>
     pc (snd (run_actions (map Tick rs) s)) = Exited \<and>
     \<not> running (lst (snd (run_actions (map Tick rs) s)))"
proof (induction rs arbitrary: s)
  case Nil
  then show ?case by (cases "pc s") simp_all
next
  case (Cons r rs)
  obtain ev s1 where st: "sys_step (Tick r) s = (ev, s1)" by (cases "sys_step (Tick r) s")
  then obtain l' c' where ls: "listener_step r (lst s) (pc s) = (ev, l', c')"
    and s1: "s1 = s\<lparr>lst := l', pc := c', queue := queue s @ emitted ev\<rparr>"
    by (rule sys_step_Tick)
  from listener_step_frame [OF ls] Cons.prems(1) s1 have nr: "\<not> running (lst s1)" by simp
  from wait_bound_step [OF ls Cons.prems(1)] Cons.prems(2) s1
  have "wait_bound (pc s1) \<le> length rs" by simp
  from Cons.IH [OF nr this] st show ?case
    by (cases "run_actions (map Tick rs) s1") simp
qed

lemma sys_step_exited:
  assumes "pc s = Exited" and "sys_step a s = (ev, s')"
  shows "emitted ev = [] \<and> pc s' = Exited"
proof (cases a)
  case (Tick got)
  with assms show ?thesis by auto
next
  case (SetKeyhashes ks)
  with assms show ?thesis by auto
next
  case StopSignal
  with assms show ?thesis by auto
next
  case (Deliver e ks)
  show ?thesis
  proof (cases "queue s")
    case Nil
    with Deliver assms show ?thesis by auto
  next
    case (Cons km rest)
    obtain k0 m0 where km: "km = (k0, m0)" by (cases km)
    have q: "queue s = (k0, m0) # rest" using Cons km by simp
    have d: "sys_step (Deliver e ks) s = (ev, s')" using assms(2) Deliver by simp
    obtain l' where "s' = s\<lparr>lst := l', queue := rest\<rparr>" and "\<forall>k' m'. Emit k' m' \<notin> set ev"
      by (rule sys_step_Deliver [OF d q])
    with assms(1) emitted_none [of ev] show ?thesis by simp
  qed
qed

lemma run_exited:
  "pc s = Exited \<Longrightarrow> run_actions as s = (evs, s') \<Longrightarrow> emitted evs = [] \<and> pc s' = Exited"
proof (induction as arbitrary: s evs s')
  case Nil
  then show ?case by simp
next
  case (Cons a as)
  obtain ev s1 where st: "sys_step a s = (ev, s1)" by (cases "sys_step a s")
  obtain evs1 s2 where rn: "run_actions as s1 = (evs1, s2)" by (cases "run_actions as s1")
  from Cons.prems(2) st rn have e: "evs = ev @ evs1" "s' = s2" by simp_all
  from sys_step_exited [OF Cons.prems(1) st] have a: "emitted ev = []" "pc s1 = Exited" by simp_all
  from Cons.IH [OF a(2) rn] a(1) e show ?case by (simp add: emitted_append)
qed

lemma stop_eq:
  "stop f s = run_actions (map (\<lambda>i. Tick (f i)) [0..<wait_bound (pc s)]) (s\<lparr>lst := signal_stop (lst s)\<rparr>)"
  by (simp add: stop_def split: prod.splits)

lemma stop_exits:
  "pc (snd (stop f s)) = Exited \<and> \<not> running (lst (snd (stop f s)))"
proof -
  let ?s = "s\<lparr>lst := signal_stop (lst s)\<rparr>"
  have nr: "\<not> running (lst ?s)" by (simp add: signal_stop_def)
  have "wait_bound (pc ?s) \<le> length (map f [0..<wait_bound (pc s)])" by simp
  from ticks_exit [OF nr this] show ?thesis by (simp add: stop_eq comp_def)
qed

lemma stop_again:
  assumes "pc s = Exited" and "\<not> running (lst s)"
  shows "stop g s = ([], s)"
proof -
  from assms(2) have "signal_stop (lst s) = lst s" by (simp add: signal_stop_def)
  with assms(1) show ?thesis by (simp add: stop_def)
qed

lemma stop_emits_in_flight:
  "Emit k m \<in> set (fst (stop f s)) \<Longrightarrow> k \<in> set (pending_keys (pc s))"
proof -
  let ?s = "s\<lparr>lst := signal_stop (lst s)\<rparr>"
  let ?as = "map (\<lambda>i. Tick (f i)) [0..<wait_bound (pc s)]"
  assume e: "Emit k m \<in> set (fst (stop f s))"
  have nr: "\<not> running (lst ?s)" by (simp add: signal_stop_def)
  obtain evs s' where rn: "run_actions ?as ?s = (evs, s')" by (cases "run_actions ?as ?s")
  with e have "Emit k m \<in> set evs" by (simp add: stop_eq)
  from run_stopped [OF nr rn this] show ?thesis by simp
qed

subsection \<open>Runs in which every get fails\<close>

lemma listener_step_down:
  "listener_step Raises l c = (ev, l', c') \<Longrightarrow> \<not> emitting c \<Longrightarrow>
     emitted ev = [] \<and> \<not> emitting c' \<and> l' = l \<and> (running l \<and> c \<noteq> Exited \<longrightarrow> c' \<noteq> Exited)"
  by (induction "Raises :: string option outcome" l c rule: listener_step.induct)
     (auto split: if_splits)

lemma sys_step_down:
  assumes "get_fails a" and "\<not> emitting (pc s)" and "sys_step a s = (ev, s')"
  shows "emitted ev = [] \<and> \<not> emitting (pc s') \<and> received (lst s') \<subseteq> received (lst s) \<and>
         (a \<noteq> StopSignal \<and> running (lst s) \<and> pc s \<noteq> Exited \<longrightarrow> running (lst s') \<and> pc s' \<noteq> Exited)"
proof (cases a)
  case (Tick got)
  with assms(1) have g: "got = Raises" by simp
  with assms(3) Tick have "sys_step (Tick Raises) s = (ev, s')" by simp
  then obtain l' c' where st: "listener_step Raises (lst s) (pc s) = (ev, l', c')"
    and s': "s' = s\<lparr>lst := l', pc := c', queue := queue s @ emitted ev\<rparr>"
    by (rule sys_step_Tick)
  from listener_step_down [OF st assms(2)] s' show ?thesis by simp
next
  case (SetKeyhashes ks)
  with assms(3) have "s' = s\<lparr>lst := set_keyhashes ks (lst s)\<rparr>" "ev = []" by auto
  with assms(2) show ?thesis by (simp add: set_keyhashes_def)
next
  case StopSignal
  with assms(3) have "s' = s\<lparr>lst := signal_stop (lst s)\<rparr>" "ev = []" by auto
  with assms(2) StopSignal show ?thesis by (simp add: signal_stop_def)
next
  case (Deliver e ks)
  show ?thesis
  proof (cases "queue s")
    case Nil
    with Deliver assms show ?thesis by auto
  next
    case (Cons km rest)
    obtain k0 m0 where km: "km = (k0, m0)" by (cases km)
    have q: "queue s = (k0, m0) # rest" using Cons km by simp
    have d: "sys_step (Deliver e ks) s = (ev, s')" using assms(3) Deliver by simp
    obtain l' where s': "s' = s\<lparr>lst := l', queue := rest\<rparr>" and "running l' = running (lst s)"
      and "received l' = received (lst s) \<or> (received l' = received (lst s) - {k0} \<and> ServerDelete k0 \<in> set ev)"
      and "\<forall>k' m'. Emit k' m' \<notin> set ev"
      by (rule sys_step_Deliver [OF d q])
    with assms(2) emitted_none [of ev] show ?thesis by auto
  qed
qed

lemma run_down:
  "list_all get_fails as \<Longrightarrow> \<not> emitting (pc s) \<Longrightarrow> run_actions as s = (evs, s') \<Longrightarrow>
     emitted evs = [] \<and> \<not> emitting (pc s') \<and> received (lst s') \<subseteq> received (lst s) \<and>
     (StopSignal \<notin> set as \<and> running (lst s) \<and> pc s \<noteq> Exited \<longrightarrow> running (lst s') \<and> pc s' \<noteq> Exited)"
proof (induction as arbitrary: s evs s')
  case Nil
  then show ?case by simp
next
  case (Cons a as)
  obtain ev s1 where st: "sys_step a s = (ev, s1)" by (cases "sys_step a s")
  obtain evs1 s2 where rn: "run_actions as s1 = (evs1, s2)" by (cases "run_actions as s1")
  from Cons.prems(3) st rn have e: "evs = ev @ evs1" "s' = s2" by simp_all
  from Cons.prems(1) have ga: "get_fails a" and gas: "list_all get_fails as" by simp_all
  from sys_step_down [OF ga Cons.prems(2) st]
  have a1: "emitted ev = []" and a2: "\<not> emitting (pc s1)" and a3: "received (lst s1) \<subseteq> received (lst s)"
    and a4: "a \<noteq> StopSignal \<and> running (lst s) \<and> pc s \<noteq> Exited \<longrightarrow> running (lst s1) \<and> pc s1 \<noteq> Exited"
    by simp_all
  from Cons.IH [OF gas a2 rn]
  have b1: "emitted evs1 = []" and b2: "\<not> emitting (pc s2)" and b3: "received (lst s2) \<subseteq> received (lst s1)"
    and b4: "StopSignal \<notin> set as \<and> running (lst s1) \<and> pc s1 \<noteq> Exited \<longrightarrow> running (lst s2) \<and> pc s2 \<noteq> Exited"
    by simp_all
  from a1 b1 e have "emitted evs = []" by (simp add: emitted_append)
  moreover from a3 b3 e have "received (lst s') \<subseteq> received (lst s)" by simp
  moreover from a4 b4 e have "StopSignal \<notin> set (a # as) \<and> running (lst s) \<and> pc s \<noteq> Exited \<longrightarrow>
      running (lst s') \<and> pc s' \<noteq> Exited" by auto
  ultimately show ?case using b2 e by simp
qed

subsection \<open>The listener's two small methods\<close>

text \<open>
  C6: \<open>set_keyhashes\<close> replaces the list of key hashes by the new one and leaves the
  received set (and the running flag) as they are, also over any sequence of such calls,
  in which a key hash may leave the watched list and enter it again.
\<close>

theorem set_keyhashes_replaces_watch_set_only:
  "keyhashes (set_keyhashes ks l) = ks \<and>
   received (set_keyhashes ks l) = received l \<and>
   running (set_keyhashes ks l) = running l \<and>
   received (fold set_keyhashes kss l) = received l"
proof -
  have "received (fold set_keyhashes kss l) = received l"
    by (induction kss arbitrary: l) (simp_all add: set_keyhashes_def)
  then show ?thesis by (simp add: set_keyhashes_def)
qed

theorem set_keyhashes_replaces_watch_set_only_witness:
  "keyhashes (set_keyhashes [''b''] \<lparr>received = {''a''}, keyhashes = [''a''], running = True\<rparr>) = [''b''] \<and>
   received (fold set_keyhashes [[''b''], [], [''a'', ''b'']]
      \<lparr>received = {''a''}, keyhashes = [''a''], running = True\<rparr>) = {''a''}"
  using set_keyhashes_replaces_watch_set_only
    [of "[''b'']" "\<lparr>received = {''a''}, keyhashes = [''a''], running = True\<rparr>" "[[''b''], [], [''a'', ''b'']]"]
  by simp

text \<open>
  C9: \<open>clear\<close> calls \<open>server.delete\<close> first. When that call raises, the exception leaves
  \<open>clear\<close> and the listener is as it was, so a key hash that was in the received set still
  is; only when the call returns is the key hash removed.
\<close>

theorem clear_delete_failure_keeps_received:
  "clear Raises keyhash l = ([ServerDelete keyhash], l, Some ServerError) \<and>
   fst (clear deleted keyhash l) = [ServerDelete keyhash] \<and>
   (keyhash \<in> received l \<longrightarrow>
      keyhash \<in> received (fst (snd (clear Raises keyhash l))) \<and>
      clear (Returns ()) keyhash l =
        ([ServerDelete keyhash], l\<lparr>received := received l - {keyhash}\<rparr>, None))"
  by (simp add: clear_def split: outcome.splits)

theorem clear_delete_failure_keeps_received_witness:
  "clear Raises ''a'' \<lparr>received = {''a''}, keyhashes = [''a''], running = True\<rparr> =
     ([ServerDelete ''a''], \<lparr>received = {''a''}, keyhashes = [''a''], running = True\<rparr>, Some ServerError) \<and>
   clear (Returns ()) ''a'' \<lparr>received = {''a''}, keyhashes = [''a''], running = True\<rparr> =
     ([ServerDelete ''a''], \<lparr>received = {}, keyhashes = [''a''], running = True\<rparr>, None)"
  using clear_delete_failure_keeps_received
    [of "''a''" "\<lparr>received = {''a''}, keyhashes = [''a''], running = True\<rparr>" Raises]
  by simp

subsection \<open>Notifications\<close>

text \<open>
  C2: once a key hash is in the received set (and its signal is not just about to be
  emitted), no run of the two threads emits a signal for it before \<open>clear\<close> is called for
  it, that is, before the event \<open>ServerDelete\<close> of that key hash. In every state that a
  run reaches from the start of the listener, a step that emits the signal for a key
  hash finds the key hash in the received set already and leaves it there. The step
  that adds the key hash (a \<open>get\<close> that returns a non-empty message for a key hash not
  yet received) emits nothing: the signal follows in a later step.
\<close>

theorem received_blocks_renotify:
  "(k \<in> received (lst s) \<and> \<not> notifying k (pc s) \<longrightarrow>
      Emit k m \<notin> set (takeWhile (\<lambda>e. e \<noteq> ServerDelete k) (fst (run_actions as s)))) \<and>
   (run_actions as0 sys_init = (evs0, s0) \<and> sys_step a s0 = (ev, s1) \<and> Emit k m \<in> set ev \<longrightarrow>
      k \<in> received (lst s0) \<and> k \<in> received (lst s1) \<and> \<not> notifying k (pc s1)) \<and>
   (pc s = InFor (k # rest) \<and> k \<notin> received (lst s) \<and> m \<noteq> [] \<longrightarrow>
      sys_step (Tick (Returns (Some m))) s =
        ([], s\<lparr>lst := (lst s)\<lparr>received := insert k (received (lst s))\<rparr>,
              pc := Notify k m rest, queue := queue s\<rparr>))"
proof -
  have A: "k \<in> received (lst s) \<and> \<not> notifying k (pc s) \<longrightarrow>
      Emit k m \<notin> set (takeWhile (\<lambda>e. e \<noteq> ServerDelete k) (fst (run_actions as s)))"
  proof
    assume "k \<in> received (lst s) \<and> \<not> notifying k (pc s)"
    then have "quiet k s" by (simp add: quiet_def)
    then show "Emit k m \<notin> set (takeWhile (\<lambda>e. e \<noteq> ServerDelete k) (fst (run_actions as s)))"
      by (rule run_quiet)
  qed
  have B: "run_actions as0 sys_init = (evs0, s0) \<and> sys_step a s0 = (ev, s1) \<and> Emit k m \<in> set ev \<longrightarrow>
      k \<in> received (lst s0) \<and> k \<in> received (lst s1) \<and> \<not> notifying k (pc s1)"
  proof
    assume h: "run_actions as0 sys_init = (evs0, s0) \<and> sys_step a s0 = (ev, s1) \<and> Emit k m \<in> set ev"
    then have w: "wf s0" using wf_run [OF wf_init] by blast
    from h have "sys_step a s0 = (ev, s1)" and "Emit k m \<in> set ev" by simp_all
    from sys_step_emit [OF this] obtain got rest' where "a = Tick got" and n: "pc s0 = Notify k m rest'"
      and s1: "s1 = s0\<lparr>lst := lst s0, pc := InFor rest', queue := queue s0 @ [(k, m)]\<rparr>"
      by blast
    from w n have "k \<in> received (lst s0)" by (simp add: wf_alt)
    with s1 show "k \<in> received (lst s0) \<and> k \<in> received (lst s1) \<and> \<not> notifying k (pc s1)" by simp
  qed
  have C: "pc s = InFor (k # rest) \<and> k \<notin> received (lst s) \<and> m \<noteq> [] \<longrightarrow>
      sys_step (Tick (Returns (Some m))) s =
        ([], s\<lparr>lst := (lst s)\<lparr>received := insert k (received (lst s))\<rparr>,
              pc := Notify k m rest, queue := queue s\<rparr>)"
    by simp
  show ?thesis by (intro conjI A B C)
qed

theorem received_blocks_renotify_witness:
  "fst (run_actions [SetKeyhashes [''a''], Tick Raises, Tick (Returns (Some ''m'')), Tick Raises] sys_init)
     = [PrintError [''received message for'', ''a''], Emit ''a'' ''m''] \<and>
   Emit ''a'' ''m'' \<notin> set (takeWhile (\<lambda>e. e \<noteq> ServerDelete ''a'')
     (fst (run_actions [Tick Raises, Tick Raises, Tick (Returns (Some ''n'')), Tick Raises, Tick Raises]
        \<lparr>lst = \<lparr>received = {''a''}, keyhashes = [''a''], running = True\<rparr>, pc = InFor [], queue = [(''a'', ''m'')]\<rparr>))) \<and>
   ''a'' \<in> received (lst \<lparr>lst = \<lparr>received = {''a''}, keyhashes = [''a''], running = True\<rparr>,
        pc = Notify ''a'' ''m'' [], queue = []\<rparr>) \<and>
   sys_step (Tick (Returns (Some ''m''))) \<lparr>lst = \<lparr>received = {}, keyhashes = [''a''], running = True\<rparr>,
        pc = InFor [''a''], queue = []\<rparr> =
     ([], \<lparr>lst = \<lparr>received = {''a''}, keyhashes = [''a''], running = True\<rparr>,
        pc = Notify ''a'' ''m'' [], queue = []\<rparr>)"
proof -
  let ?l = "\<lparr>received = {''a''}, keyhashes = [''a''], running = True\<rparr>"
  let ?s0 = "\<lparr>lst = ?l, pc = Notify ''a'' ''m'' [], queue = []\<rparr>"
  let ?s1 = "\<lparr>lst = ?l, pc = InFor [], queue = [(''a'', ''m'')]\<rparr>"
  let ?t = "\<lparr>lst = \<lparr>received = {}, keyhashes = [''a''], running = True\<rparr>, pc = InFor [''a''], queue = []\<rparr>"
  have r0: "run_actions [SetKeyhashes [''a''], Tick Raises, Tick (Returns (Some ''m''))] sys_init = ([], ?s0)"
    by (simp add: sys_init_def start_def Listener_init_def set_keyhashes_def)
  have r1: "sys_step (Tick Raises) ?s0 = ([PrintError [''received message for'', ''a''], Emit ''a'' ''m''], ?s1)"
    by simp
  have r2: "fst (run_actions [SetKeyhashes [''a''], Tick Raises, Tick (Returns (Some ''m'')), Tick Raises] sys_init)
     = [PrintError [''received message for'', ''a''], Emit ''a'' ''m'']"
    by (simp add: sys_init_def start_def Listener_init_def set_keyhashes_def)
  note t = received_blocks_renotify [where k = "''a''" and m = "''m''" and s = ?s1
      and as = "[Tick Raises, Tick Raises, Tick (Returns (Some ''n'')), Tick Raises, Tick Raises]"
      and ?as0.0 = "[SetKeyhashes [''a''], Tick Raises, Tick (Returns (Some ''m''))]"
      and ?evs0.0 = "[]" and ?s0.0 = ?s0 and a = "Tick Raises"
      and ev = "[PrintError [''received message for'', ''a''], Emit ''a'' ''m'']" and ?s1.0 = ?s1]
  have u: "sys_step (Tick (Returns (Some ''m''))) ?t = ([], ?s0)" by simp
  from t r0 r1 r2 u show ?thesis by simp
qed

text \<open>
  C10: when the user declines a delivered message (empty password, refused question, no
  private key), \<open>on_receive\<close> only logs the arrival and returns: \<open>clear\<close> is not called, the
  listener is unchanged and the key hash is still in the received set. In every state
  that a run reaches from the start of the listener this holds for the signal at the
  head of the queue, and from then on no run of the two threads emits a signal for
  that key hash again; the key hash stays in the received set.
\<close>

theorem declined_message_is_not_notified_again:
  "run_actions as0 sys_init = (evs0, s) \<and> queue s = (k, m) # q \<and>
   find_key k ks = Some (key, h, w) \<and> declines e w key \<longrightarrow>
     sys_step (Deliver e ks) s = ([PrintError [''signal arrived for'', k]], s\<lparr>queue := q\<rparr>) \<and>
     k \<in> received (lst s) \<and>
     Emit k m' \<notin> set (fst (run_actions as (s\<lparr>queue := q\<rparr>))) \<and>
     k \<in> received (lst (snd (run_actions as (s\<lparr>queue := q\<rparr>))))"
proof
  assume h: "run_actions as0 sys_init = (evs0, s) \<and> queue s = (k, m) # q \<and>
   find_key k ks = Some (key, h, w) \<and> declines e w key"
  then have w: "wf s" using wf_run [OF wf_init] by blast
  from h have q: "queue s = (k, m) # q" and f: "find_key k ks = Some (key, h, w)"
    and d: "declines e w key" by simp_all
  let ?p = "\<lparr>listener = Some (lst s), keys = ks, cosigner_list = []\<rparr>"
  have "on_receive e ?p k m = ([PrintError [''signal arrived for'', k]], ?p, None)"
    by (rule on_receive_declined [where h = h and key = key and w = w]) (simp_all add: f d)
  with q have step: "sys_step (Deliver e ks) s = ([PrintError [''signal arrived for'', k]], s\<lparr>queue := q\<rparr>)"
    by simp
  from w q have r: "k \<in> received (lst s)" and n: "\<not> notifying k (pc s)"
    by (auto simp: wf_alt)
  from w q have "k \<notin> fst ` set q" by (simp add: wf_alt)
  with r n have st: "settled k (s\<lparr>queue := q\<rparr>)" by (simp add: settled_def quiet_def)
  obtain evs s' where rn: "run_actions as (s\<lparr>queue := q\<rparr>) = (evs, s')"
    by (cases "run_actions as (s\<lparr>queue := q\<rparr>)")
  from run_settled [OF st rn, of m'] have "Emit k m' \<notin> set evs" "k \<in> received (lst s')"
    by (simp_all add: settled_def quiet_def)
  with rn step r show "sys_step (Deliver e ks) s = ([PrintError [''signal arrived for'', k]], s\<lparr>queue := q\<rparr>) \<and>
     k \<in> received (lst s) \<and>
     Emit k m' \<notin> set (fst (run_actions as (s\<lparr>queue := q\<rparr>))) \<and>
     k \<in> received (lst (snd (run_actions as (s\<lparr>queue := q\<rparr>))))" by simp
qed


theorem declined_message_is_not_notified_again_witness:
  "sys_step (Deliver \<lparr>use_encryption = (\<lambda>w. True), password_dialog = (\<lambda>w. Some []),
        question = (\<lambda>w. False), get_master_private_key = (\<lambda>w k p. Some ''xprv''),
        decrypt_message = (\<lambda>x c. Inr c), server_delete = (\<lambda>k. Returns ())\<rparr> [(''x1/'', ''a'', 0)])
      \<lparr>lst = \<lparr>received = {''a''}, keyhashes = [''a''], running = True\<rparr>, pc = InFor [], queue = [(''a'', ''m'')]\<rparr>
     = ([PrintError [''signal arrived for'', ''a'']],
        \<lparr>lst = \<lparr>received = {''a''}, keyhashes = [''a''], running = True\<rparr>, pc = InFor [], queue = []\<rparr>) \<and>
   Emit ''a'' ''m'' \<notin> set (fst (run_actions [Tick Raises, Tick Raises, Tick (Returns (Some ''m'')), Tick Raises]
      \<lparr>lst = \<lparr>received = {''a''}, keyhashes = [''a''], running = True\<rparr>, pc = InFor [], queue = []\<rparr>))"
proof -
  let ?e = "\<lparr>use_encryption = (\<lambda>w. True), password_dialog = (\<lambda>w. Some []),
        question = (\<lambda>w. False), get_master_private_key = (\<lambda>w k p. Some ''xprv''),
        decrypt_message = (\<lambda>x c. Inr c), server_delete = (\<lambda>k. Returns ())\<rparr>"
  let ?s = "\<lparr>lst = \<lparr>received = {''a''}, keyhashes = [''a''], running = True\<rparr>, pc = InFor [], queue = [(''a'', ''m'')]\<rparr>"
  have r0: "run_actions [SetKeyhashes [''a''], Tick Raises, Tick (Returns (Some ''m'')), Tick Raises] sys_init = 
      ([PrintError [''received message for'', ''a''], Emit ''a'' ''m''], ?s)"
    by (simp add: sys_init_def start_def Listener_init_def set_keyhashes_def)
  have d: "declines ?e 0 ''x1/''" by (simp add: declines_def)
  have f: "find_key ''a'' [(''x1/'', ''a'', 0)] = Some (''x1/'', ''a'', 0)" by simp
  note t = declined_message_is_not_notified_again [where ?as0.0 = "[SetKeyhashes [''a''], Tick Raises, Tick (Returns (Some ''m'')), Tick Raises]"
      and ?evs0.0 = "[PrintError [''received message for'', ''a''], Emit ''a'' ''m'']" and s = ?s
      and k = "''a''" and m = "''m''" and q = "[]" and ks = "[(''x1/'', ''a'', 0)]" and key = "''x1/''"
      and h = "''a''" and w = 0 and e = ?e and m' = "''m''"
      and as = "[Tick Raises, Tick Raises, Tick (Returns (Some ''m'')), Tick Raises]"]
  from t r0 d f show ?thesis by simp
qed

subsection \<open>Sending\<close>

text \<open>
  C1, as the code has it: \<open>do_send\<close> visits the entries of the cosigner list in order. For
  an entry whose cosigner can sign, the transaction is encrypted and put; a put that
  raises is reported on that entry's window (after the traceback) and ends \<open>do_send\<close>:
  the entries before it that can sign were each put and reported as sent, the entries
  after it are not visited. When no put raises, every entry that can sign is put and
  reported as sent.
\<close>

theorem do_send_stops_at_first_failure:
  "((\<forall>(w, x, K, h) \<in> set pre. cosigner_can_sign X t x \<longrightarrow> P h (E (raw t) K) = Returns ()) \<and>
    cosigner_can_sign X t xpub \<and> P hash (E (raw t) K0) = Raises \<longrightarrow>
      do_send X E P t (pre @ (window, xpub, K0, hash) # post) =
        concat (map (\<lambda>(w, x, K, h). [ServerPut h (E (raw t) K), ShowMessage w msg_sent])
                    (filter (\<lambda>(w, x, K, h). cosigner_can_sign X t x) pre))
        @ [ServerPut hash (E (raw t) K0), PrintTraceback, ShowMessage window msg_failed]) \<and>
   ((\<forall>(w, x, K, h) \<in> set cl. cosigner_can_sign X t x \<longrightarrow> P h (E (raw t) K) = Returns ()) \<longrightarrow>
      do_send X E P t cl =
        concat (map (\<lambda>(w, x, K, h). [ServerPut h (E (raw t) K), ShowMessage w msg_sent])
                    (filter (\<lambda>(w, x, K, h). cosigner_can_sign X t x) cl)))"
proof -
  have A: "(\<forall>(w, x, K, h) \<in> set pre. cosigner_can_sign X t x \<longrightarrow> P h (E (raw t) K) = Returns ()) \<and>
    cosigner_can_sign X t xpub \<and> P hash (E (raw t) K0) = Raises \<longrightarrow>
      do_send X E P t (pre @ (window, xpub, K0, hash) # post) =
        concat (map (\<lambda>(w, x, K, h). [ServerPut h (E (raw t) K), ShowMessage w msg_sent])
                    (filter (\<lambda>(w, x, K, h). cosigner_can_sign X t x) pre))
        @ [ServerPut hash (E (raw t) K0), PrintTraceback, ShowMessage window msg_failed]"
  proof
    assume h: "(\<forall>(w, x, K, h) \<in> set pre. cosigner_can_sign X t x \<longrightarrow> P h (E (raw t) K) = Returns ()) \<and>
      cosigner_can_sign X t xpub \<and> P hash (E (raw t) K0) = Raises"
    then have ok: "\<forall>(w, x, K, h) \<in> set pre. cosigner_can_sign X t x \<longrightarrow> P h (E (raw t) K) = Returns ()"
      by simp
    from h have "do_send X E P t ((window, xpub, K0, hash) # post) =
        [ServerPut hash (E (raw t) K0), PrintTraceback, ShowMessage window msg_failed]"
      by (simp add: Let_def)
    with ok do_send_all_sent [where cl = pre and X = X and t = t and P = P and E = E
        and rest = "(window, xpub, K0, hash) # post"]
    show "do_send X E P t (pre @ (window, xpub, K0, hash) # post) =
        concat (map (\<lambda>(w, x, K, h). [ServerPut h (E (raw t) K), ShowMessage w msg_sent])
                    (filter (\<lambda>(w, x, K, h). cosigner_can_sign X t x) pre))
        @ [ServerPut hash (E (raw t) K0), PrintTraceback, ShowMessage window msg_failed]"
      by simp
  qed
  have B: "(\<forall>(w, x, K, h) \<in> set cl. cosigner_can_sign X t x \<longrightarrow> P h (E (raw t) K) = Returns ()) \<longrightarrow>
      do_send X E P t cl =
        concat (map (\<lambda>(w, x, K, h). [ServerPut h (E (raw t) K), ShowMessage w msg_sent])
                    (filter (\<lambda>(w, x, K, h). cosigner_can_sign X t x) cl))"
    using do_send_all_sent [where cl = cl and X = X and t = t and P = P and E = E and rest = "[]"] by simp
  show ?thesis by (intro conjI A B)
qed

text \<open>
  The claim C1 as stated (a failed put does not abort the attempts for the remaining
  recipients) fails: the first of two recipients that can sign has a failing put, and
  nothing is put for the second.
\<close>

theorem do_send_first_failure_ends_send_counterexample:
  "cosigner_can_sign x_to_xpub0 \<lparr>raw = ''tx'', inputs = [[''xA'', ''xB'']]\<rparr> ''xpubB'' \<and>
   do_send x_to_xpub0 (\<lambda>payload K. K @ payload)
      (\<lambda>h c. if h = ''hA'' then Raises else Returns ())
      \<lparr>raw = ''tx'', inputs = [[''xA'', ''xB'']]\<rparr>
      [(1, ''xpubA'', ''KA'', ''hA''), (2, ''xpubB'', ''KB'', ''hB'')] =
     [ServerPut ''hA'' ''KAtx'', PrintTraceback, ShowMessage 1 msg_failed] \<and>
   ServerPut ''hB'' ''KBtx'' \<notin> set (do_send x_to_xpub0 (\<lambda>payload K. K @ payload)
      (\<lambda>h c. if h = ''hA'' then Raises else Returns ())
      \<lparr>raw = ''tx'', inputs = [[''xA'', ''xB'']]\<rparr>
      [(1, ''xpubA'', ''KA'', ''hA''), (2, ''xpubB'', ''KB'', ''hB'')])"
  by (simp add: cosigner_can_sign_def x_to_xpub0_def)

theorem do_send_stops_at_first_failure_witness:
  "do_send x_to_xpub0 (\<lambda>payload K. K @ payload)
      (\<lambda>h c. if h = ''hB'' then Raises else Returns ())
      \<lparr>raw = ''tx'', inputs = [[''xA'', ''xB'']]\<rparr>
      [(1, ''xpubA'', ''KA'', ''hA''), (3, ''xpubC'', ''KC'', ''hC''), (2, ''xpubB'', ''KB'', ''hB''),
       (4, ''xpubA'', ''KA'', ''hA'')] =
     [ServerPut ''hA'' ''KAtx'', ShowMessage 1 msg_sent,
      ServerPut ''hB'' ''KBtx'', PrintTraceback, ShowMessage 2 msg_failed] \<and>
   do_send x_to_xpub0 (\<lambda>payload K. K @ payload)
      (\<lambda>h c. if h = ''hB'' then Raises else Returns ())
      \<lparr>raw = ''tx'', inputs = [[''xA'', ''xB'']]\<rparr>
      [(1, ''xpubA'', ''KA'', ''hA''), (3, ''xpubC'', ''KC'', ''hC'')] =
     [ServerPut ''hA'' ''KAtx'', ShowMessage 1 msg_sent]"
  using do_send_stops_at_first_failure [where X = x_to_xpub0 and E = "\<lambda>payload K. K @ payload"
      and P = "\<lambda>h c. if h = ''hB'' then Raises else Returns ()"
      and t = "\<lparr>raw = ''tx'', inputs = [[''xA'', ''xB'']]\<rparr>"
      and pre = "[(1, ''xpubA'', ''KA'', ''hA''), (3, ''xpubC'', ''KC'', ''hC'')]"
      and window = 2 and xpub = "''xpubB''" and ?K0.0 = "''KB''" and hash = "''hB''"
      and post = "[(4, ''xpubA'', ''KA'', ''hA'')]"
      and cl = "[(1, ''xpubA'', ''KA'', ''hA''), (3, ''xpubC'', ''KC'', ''hC'')]"]
  by (simp add: cosigner_can_sign_def x_to_xpub0_def)

subsection \<open>Rebuilding the key lists\<close>

text \<open>
  C5: \<open>update\<close> rebuilds both lists from the windows alone. For every wallet of type
  \<open>2of2\<close> or \<open>2of3\<close> with its window, and for every master public key of the wallet, a
  key with a (non-empty) master private key gives the entry (key, key hash, window) of
  \<open>self.keys\<close>, and a key without one gives the entry (window, xpub, K, key hash) of
  \<open>self.cosigner_list\<close>; there are no other entries. What the two lists held before has
  no influence on the result. Without such a wallet both lists are empty (and there is
  no listener).
\<close>

theorem update_rebuilds_directory:
  "keys (snd (update D H windows p)) = concat (map (mine_of D H) (available_wallets windows)) \<and>
   cosigner_list (snd (update D H windows p)) = concat (map (theirs_of D H) (available_wallets windows)) \<and>
   keys (snd (update D H windows (p\<lparr>keys := ks0, cosigner_list := cl0\<rparr>))) = keys (snd (update D H windows p)) \<and>
   cosigner_list (snd (update D H windows (p\<lparr>keys := ks0, cosigner_list := cl0\<rparr>))) =
     cosigner_list (snd (update D H windows p)) \<and>
   (available_wallets windows = [] \<longrightarrow>
      keys (snd (update D H windows p)) = [] \<and> cosigner_list (snd (update D H windows p)) = [] \<and>
      listener (snd (update D H windows p)) = None) \<and>
   available_wallets [] = []"
  by (simp add: update_lists update_listener available_wallets_def)

theorem update_rebuilds_directory_witness:
  "snd (update (\<lambda>x. x) (\<lambda>x. x)
      [\<lparr>window_ref = 1, wallet_of = \<lparr>wallet_ref = 10, wallet_type = ''2of2'',
           master_public_keys = [(''x1/'', ''A''), (''x2/'', ''B'')],
           master_private_keys = [(''x1/'', ''priv'')]\<rparr>\<rparr>,
       \<lparr>window_ref = 2, wallet_of = \<lparr>wallet_ref = 11, wallet_type = ''standard'',
           master_public_keys = [(''x/'', ''C'')], master_private_keys = [(''x/'', ''priv'')]\<rparr>\<rparr>]
      \<lparr>listener = None, keys = [(''old'', ''00'', 7)], cosigner_list = [(7, ''Z'', ''5a'', ''3561'')]\<rparr>) =
     \<lparr>listener = Some \<lparr>received = {}, keyhashes = [''3431''], running = True\<rparr>,
      keys = [(''x1/'', ''3431'', 1)], cosigner_list = [(1, ''B'', ''42'', ''3432'')]\<rparr> \<and>
   snd (update (\<lambda>x. x) (\<lambda>x. x) []
      \<lparr>listener = None, keys = [(''old'', ''00'', 7)], cosigner_list = [(7, ''Z'', ''5a'', ''3561'')]\<rparr>) =
     \<lparr>listener = None, keys = [], cosigner_list = []\<rparr>"
proof -
  let ?w = "[\<lparr>window_ref = 1, wallet_of = \<lparr>wallet_ref = 10, wallet_type = ''2of2'',
           master_public_keys = [(''x1/'', ''A''), (''x2/'', ''B'')],
           master_private_keys = [(''x1/'', ''priv'')]\<rparr>\<rparr>,
       \<lparr>window_ref = 2, wallet_of = \<lparr>wallet_ref = 11, wallet_type = ''standard'',
           master_public_keys = [(''x/'', ''C'')], master_private_keys = [(''x/'', ''priv'')]\<rparr>\<rparr>]"
  let ?p = "\<lparr>listener = None, keys = [(''old'', ''00'', 7)], cosigner_list = [(7, ''Z'', ''5a'', ''3561'')]\<rparr>"
  have a: "available_wallets ?w = [(\<lparr>wallet_ref = 10, wallet_type = ''2of2'',
           master_public_keys = [(''x1/'', ''A''), (''x2/'', ''B'')],
           master_private_keys = [(''x1/'', ''priv'')]\<rparr>, \<lparr>window_ref = 1, wallet_of = \<lparr>wallet_ref = 10, wallet_type = ''2of2'',
           master_public_keys = [(''x1/'', ''A''), (''x2/'', ''B'')],
           master_private_keys = [(''x1/'', ''priv'')]\<rparr>\<rparr>)]"
    by (simp add: available_wallets_def)
  have h: "hexlify ''A'' = ''41''" "hexlify ''B'' = ''42''" "hexlify ''41'' = ''3431''" "hexlify ''42'' = ''3432''"
    by (simp_all add: hexlify_def hex_digit_def)
  have l: "listener (snd (update (\<lambda>x. x) (\<lambda>x. x) ?w ?p)) = Some \<lparr>received = {}, keyhashes = [''3431''], running = True\<rparr>"
    unfolding update_def Let_def a
    by (simp add: h has_private_def start_def Listener_init_def set_keyhashes_def)
  have l0: "listener (snd (update (\<lambda>x. x) (\<lambda>x. x) [] ?p)) = None"
    unfolding update_def Let_def by (simp add: available_wallets_def)
  note t = update_rebuilds_directory [where D = "\<lambda>x. x" and H = "\<lambda>x. x" and windows = ?w and p = ?p]
  note t0 = update_rebuilds_directory [where D = "\<lambda>x. x" and H = "\<lambda>x. x" and windows = "[]" and p = ?p]
  have k: "keys (snd (update (\<lambda>x. x) (\<lambda>x. x) ?w ?p)) = [(''x1/'', ''3431'', 1)]"
     "cosigner_list (snd (update (\<lambda>x. x) (\<lambda>x. x) ?w ?p)) = [(1, ''B'', ''42'', ''3432'')]"
    using t unfolding a by (simp_all add: mine_of_def theirs_of_def has_private_def keyhash_of_def h)
  have k0: "keys (snd (update (\<lambda>x. x) (\<lambda>x. x) [] ?p)) = []"
     "cosigner_list (snd (update (\<lambda>x. x) (\<lambda>x. x) [] ?p)) = []"
    using t0 by (simp_all add: available_wallets_def)
  have eq: "\<And>q l ks cl. listener q = l \<Longrightarrow> keys q = ks \<Longrightarrow> cosigner_list q = cl \<Longrightarrow>
      q = \<lparr>listener = l, keys = ks, cosigner_list = cl\<rparr>"
    by auto
  show ?thesis using eq [OF l k] eq [OF l0 k0] by simp
qed

subsection \<open>Identifier derivation, as the spec describes it\<close>

text \<open>
  C7: \<open>derive\<close> gives a result for every input, and the result depends on the input
  alone: empty or invalid key material gives the error \<open>InvalidKey\<close> and no identifier,
  any other key gives the hash of the key.
\<close>

theorem derive_total_deterministic_rejects_malformed:
  "(pubkey = [] \<or> \<not> valid_key pubkey \<longrightarrow> derive valid_key hash pubkey = Inl InvalidKey) \<and>
   (pubkey \<noteq> [] \<and> valid_key pubkey \<longrightarrow> derive valid_key hash pubkey = Inr (hash pubkey)) \<and>
   (derive valid_key hash pubkey = Inl InvalidKey \<or> derive valid_key hash pubkey = Inr (hash pubkey)) \<and>
   (pubkey' = pubkey \<longrightarrow> derive valid_key hash pubkey' = derive valid_key hash pubkey)"
  by (simp add: derive_def)

theorem derive_total_deterministic_rejects_malformed_witness:
  "derive (\<lambda>k. length k = 2) rev [] = Inl InvalidKey \<and>
   derive (\<lambda>k. length k = 2) rev ''abc'' = Inl InvalidKey \<and>
   derive (\<lambda>k. length k = 2) rev ''ab'' = Inr ''ba''"
  using derive_total_deterministic_rejects_malformed [where valid_key = "\<lambda>k. length k = 2" and hash = rev and pubkey = "[]" and pubkey' = "[]"]
    derive_total_deterministic_rejects_malformed [where valid_key = "\<lambda>k. length k = 2" and hash = rev and pubkey = "''abc''" and pubkey' = "''abc''"]
    derive_total_deterministic_rejects_malformed [where valid_key = "\<lambda>k. length k = 2" and hash = rev and pubkey = "''ab''" and pubkey' = "''ab''"]
  by simp

subsection \<open>Stopping and restarting the listener\<close>

text \<open>
  C8: \<open>stop\<close> returns with the listener out of its loop and its flag cleared, from any
  state, also with a pass in flight. A second \<open>stop\<close> does nothing and changes nothing.
  Once \<open>stop\<close> has returned, no run of the two threads emits a signal; the signals
  emitted while \<open>stop\<close> waits are for key hashes of the pass that was in flight. When
  \<open>update\<close> finds no wallet it drops the listener (a second such \<open>update\<close> does nothing
  more), and the listener that a later \<open>update\<close> starts has an empty received set and is
  running.
\<close>

theorem stop_waits_for_the_listener_to_leave_its_loop:
  "pc (snd (stop f s)) = Exited \<and> \<not> running (lst (snd (stop f s))) \<and>
   stop g (snd (stop f s)) = ([], snd (stop f s)) \<and>
   emitted (fst (run_actions as (snd (stop f s)))) = [] \<and>
   (Emit k m \<in> set (fst (stop f s)) \<longrightarrow> k \<in> set (pending_keys (pc s))) \<and>
   (available_wallets windows1 = [] \<and> available_wallets windows2 \<noteq> [] \<longrightarrow>
      listener (snd (update D H windows1 p)) = None \<and>
      fst (update D H windows1 (snd (update D H windows1 p))) = [] \<and>
      map_option received (listener (snd (update D H windows2 (snd (update D H windows1 p))))) = Some {} \<and>
      map_option running (listener (snd (update D H windows2 (snd (update D H windows1 p))))) = Some True)"
proof -
  have A: "pc (snd (stop f s)) = Exited" and A': "\<not> running (lst (snd (stop f s)))"
    using stop_exits [of f s] by simp_all
  have B: "stop g (snd (stop f s)) = ([], snd (stop f s))"
    by (rule stop_again [OF A A'])
  obtain evs s' where rn: "run_actions as (snd (stop f s)) = (evs, s')"
    by (cases "run_actions as (snd (stop f s))")
  have C: "emitted (fst (run_actions as (snd (stop f s)))) = []"
    using run_exited [OF A rn] rn by simp
  have D: "Emit k m \<in> set (fst (stop f s)) \<longrightarrow> k \<in> set (pending_keys (pc s))"
    using stop_emits_in_flight by blast
  have E: "available_wallets windows1 = [] \<and> available_wallets windows2 \<noteq> [] \<longrightarrow>
      listener (snd (update D H windows1 p)) = None \<and>
      fst (update D H windows1 (snd (update D H windows1 p))) = [] \<and>
      map_option received (listener (snd (update D H windows2 (snd (update D H windows1 p))))) = Some {} \<and>
      map_option running (listener (snd (update D H windows2 (snd (update D H windows1 p))))) = Some True"
  proof
    assume h: "available_wallets windows1 = [] \<and> available_wallets windows2 \<noteq> []"
    then have n: "listener (snd (update D H windows1 p)) = None" by (simp add: update_listener)
    have f: "fst (update D H windows1 (snd (update D H windows1 p))) = []"
      using h n by (simp add: update_def [of D H windows1 "snd (update D H windows1 p)"] Let_def split: prod.splits)
    from h n show "listener (snd (update D H windows1 p)) = None \<and>
      fst (update D H windows1 (snd (update D H windows1 p))) = [] \<and>
      map_option received (listener (snd (update D H windows2 (snd (update D H windows1 p))))) = Some {} \<and>
      map_option running (listener (snd (update D H windows2 (snd (update D H windows1 p))))) = Some True"
      using f by (simp add: update_listener [of D H windows2] set_keyhashes_def start_def Listener_init_def)
  qed
  show ?thesis by (intro conjI A A' B C D E)
qed

theorem stop_waits_for_the_listener_to_leave_its_loop_witness:
  "stop (\<lambda>i. Returns (Some ''m''))
     \<lparr>lst = \<lparr>received = {}, keyhashes = [''a''], running = True\<rparr>, pc = InFor [''a''], queue = []\<rparr> =
     ([PrintError [''received message for'', ''a''], Emit ''a'' ''m'', Sleep 30],
      \<lparr>lst = \<lparr>received = {''a''}, keyhashes = [''a''], running = False\<rparr>, pc = Exited,
        queue = [(''a'', ''m'')]\<rparr>) \<and>
   emitted (fst (run_actions [Tick (Returns (Some ''n'')), SetKeyhashes [''b''], Tick (Returns (Some ''n''))]
     (snd (stop (\<lambda>i. Returns (Some ''m''))
       \<lparr>lst = \<lparr>received = {}, keyhashes = [''a''], running = True\<rparr>, pc = InFor [''a''], queue = []\<rparr>)))) = [] \<and>
   map_option received (listener (snd (update (\<lambda>x. x) (\<lambda>x. x)
      [\<lparr>window_ref = 1, wallet_of = \<lparr>wallet_ref = 10, wallet_type = ''2of2'',
           master_public_keys = [(''x1/'', ''A'')], master_private_keys = [(''x1/'', ''priv'')]\<rparr>\<rparr>]
      (snd (update (\<lambda>x. x) (\<lambda>x. x) []
         \<lparr>listener = Some \<lparr>received = {''3431''}, keyhashes = [''3431''], running = True\<rparr>,
          keys = [(''x1/'', ''3431'', 1)], cosigner_list = []\<rparr>))))) = Some {}"
proof -
  let ?s = "\<lparr>lst = \<lparr>received = {}, keyhashes = [''a''], running = True\<rparr>, pc = InFor [''a''], queue = []\<rparr>"
  have up: "[0..<4] = [0, 1, 2, 3]" by (simp add: upt_rec)
  have ev: "stop (\<lambda>i. Returns (Some ''m'')) ?s =
     ([PrintError [''received message for'', ''a''], Emit ''a'' ''m'', Sleep 30],
      \<lparr>lst = \<lparr>received = {''a''}, keyhashes = [''a''], running = False\<rparr>, pc = Exited,
        queue = [(''a'', ''m'')]\<rparr>)"
    by (simp add: stop_def signal_stop_def up)
  note t = stop_waits_for_the_listener_to_leave_its_loop
    [where f = "\<lambda>i. Returns (Some ''m'')" and s = ?s and g = "\<lambda>i. Raises"
       and as = "[Tick (Returns (Some ''n'')), SetKeyhashes [''b''], Tick (Returns (Some ''n''))]"
       and k = "''a''" and m = "''m''"
       and ?windows1.0 = "[]"
       and ?windows2.0 = "[\<lparr>window_ref = 1, wallet_of = \<lparr>wallet_ref = 10, wallet_type = ''2of2'',
           master_public_keys = [(''x1/'', ''A'')], master_private_keys = [(''x1/'', ''priv'')]\<rparr>\<rparr>]"
       and D = "\<lambda>x. x" and H = "\<lambda>x. x"
       and p = "\<lparr>listener = Some \<lparr>received = {''3431''}, keyhashes = [''3431''], running = True\<rparr>,
          keys = [(''x1/'', ''3431'', 1)], cosigner_list = []\<rparr>"]
  have aw: "available_wallets [] = []"
    "available_wallets [\<lparr>window_ref = 1, wallet_of = \<lparr>wallet_ref = 10, wallet_type = ''2of2'',
           master_public_keys = [(''x1/'', ''A'')], master_private_keys = [(''x1/'', ''priv'')]\<rparr>\<rparr>] \<noteq> []"
    by (simp_all add: available_wallets_def)
  from t aw ev show ?thesis by blast
qed

subsection \<open>A failing server\<close>

text \<open>
  C4, as the code has it: a poll whose \<open>server.get\<close> raises logs
  \<open>cannot contact cosigner pool\<close>, sleeps 30 seconds, emits no signal and changes nothing
  in the listener, and the loop goes on with the next key hash of the pass; the pause
  that ends every pass is 30 seconds as well. As long as every \<open>get\<close> fails, whatever
  the watched key hashes and whatever the GUI thread does meanwhile, no signal is
  emitted and no key hash is added to the received set, and unless it is told to stop
  the listener keeps running in its loop. Once \<open>get\<close> returns a message for a key hash
  not yet received, the runs of the two threads contain exactly one signal for it before
  \<open>clear\<close> is called for it; with one watched key hash, any number of failing passes
  followed by a pass in which \<open>get\<close> returns a message emits exactly one signal, for that
  message.
\<close>

theorem failed_get_sleeps_30_and_recovers:
  "(pc s = InFor (k # rest) \<and> k \<notin> received (lst s) \<longrightarrow>
      sys_step (Tick Raises) s =
        ([PrintError [''cannot contact cosigner pool''], Sleep 30], s\<lparr>pc := InFor rest\<rparr>)) \<and>
   (pc s2 = InFor [] \<longrightarrow> sys_step (Tick got2) s2 = ([Sleep 30], s2\<lparr>pc := AtWhile\<rparr>)) \<and>
   (list_all get_fails as3 \<and> \<not> emitting (pc s3) \<longrightarrow>
      emitted (fst (run_actions as3 s3)) = [] \<and>
      received (lst (snd (run_actions as3 s3))) \<subseteq> received (lst s3)) \<and>
   (list_all get_fails as3 \<and> \<not> emitting (pc s3) \<and> StopSignal \<notin> set as3 \<and>
    running (lst s3) \<and> pc s3 \<noteq> Exited \<longrightarrow>
      running (lst (snd (run_actions as3 s3))) \<and> pc (snd (run_actions as3 s3)) \<noteq> Exited) \<and>
   (pc s = InFor (k # rest) \<and> k \<notin> received (lst s) \<and> m \<noteq> [] \<longrightarrow>
      notifications k (takeWhile (\<lambda>e. e \<noteq> ServerDelete k)
        (fst (run_actions (Tick (Returns (Some m)) # Tick got # as) s))) = [(k, m)]) \<and>
   (running l \<and> keyhashes l = [k] \<and> k \<notin> received l \<and> m \<noteq> [] \<longrightarrow>
      run_actions (concat (replicate n [Tick Raises, Tick Raises, Tick Raises]) @
                   [Tick (Returns (Some m)), Tick (Returns (Some m)), Tick (Returns (Some m)),
                    Tick (Returns (Some m))])
          \<lparr>lst = l, pc = AtWhile, queue = q\<rparr> =
        (concat (replicate n [PrintError [''cannot contact cosigner pool''], Sleep 30, Sleep 30]) @
           [PrintError [''received message for'', k], Emit k m, Sleep 30],
         \<lparr>lst = l\<lparr>received := insert k (received l)\<rparr>, pc = AtWhile, queue = q @ [(k, m)]\<rparr>) \<and>
      emitted (fst (run_actions (concat (replicate n [Tick Raises, Tick Raises, Tick Raises]) @
                   [Tick (Returns (Some m)), Tick (Returns (Some m)), Tick (Returns (Some m)),
                    Tick (Returns (Some m))])
          \<lparr>lst = l, pc = AtWhile, queue = q\<rparr>)) = [(k, m)])"
proof -
  have A: "pc s = InFor (k # rest) \<and> k \<notin> received (lst s) \<longrightarrow>
      sys_step (Tick Raises) s =
        ([PrintError [''cannot contact cosigner pool''], Sleep 30], s\<lparr>pc := InFor rest\<rparr>)"
    by simp
  have B: "pc s2 = InFor [] \<longrightarrow> sys_step (Tick got2) s2 = ([Sleep 30], s2\<lparr>pc := AtWhile\<rparr>)"
    by simp
  obtain evs3 s3' where rn: "run_actions as3 s3 = (evs3, s3')" by (cases "run_actions as3 s3")
  have C: "list_all get_fails as3 \<and> \<not> emitting (pc s3) \<longrightarrow>
      emitted (fst (run_actions as3 s3)) = [] \<and>
      received (lst (snd (run_actions as3 s3))) \<subseteq> received (lst s3)"
    using run_down [OF _ _ rn] rn by simp
  have D: "list_all get_fails as3 \<and> \<not> emitting (pc s3) \<and> StopSignal \<notin> set as3 \<and>
    running (lst s3) \<and> pc s3 \<noteq> Exited \<longrightarrow>
      running (lst (snd (run_actions as3 s3))) \<and> pc (snd (run_actions as3 s3)) \<noteq> Exited"
    using run_down [OF _ _ rn] rn by simp
  have E: "pc s = InFor (k # rest) \<and> k \<notin> received (lst s) \<and> m \<noteq> [] \<longrightarrow>
      notifications k (takeWhile (\<lambda>e. e \<noteq> ServerDelete k)
        (fst (run_actions (Tick (Returns (Some m)) # Tick got # as) s))) = [(k, m)]"
    using notified_once by blast
  let ?s0 = "\<lparr>lst = l, pc = AtWhile, queue = q\<rparr>"
  let ?fails = "concat (replicate n [Tick Raises, Tick Raises, Tick Raises])"
  let ?ok = "[Tick (Returns (Some m)), Tick (Returns (Some m)), Tick (Returns (Some m)), Tick (Returns (Some m))]"
  let ?evf = "concat (replicate n [PrintError [''cannot contact cosigner pool''], Sleep 30, Sleep 30])"
  {
    assume h: "running l \<and> keyhashes l = [k] \<and> k \<notin> received l \<and> m \<noteq> []"
    then have r: "running l" and w: "keyhashes l = [k]" and nr: "k \<notin> received l" and m: "m \<noteq> []"
      by simp_all
    have b4: "run_actions (?fails @ ?ok) ?s0 =
        (?evf @ [PrintError [''received message for'', k], Emit k m, Sleep 30],
         \<lparr>lst = l\<lparr>received := insert k (received l)\<rparr>, pc = AtWhile, queue = q @ [(k, m)]\<rparr>)"
      unfolding run_actions_append [of ?fails] failing_cycles [OF r w nr]
        using recovery_cycle [OF r w nr m, of q] by simp
    have b5: "emitted (fst (run_actions (?fails @ ?ok) ?s0)) = [(k, m)]"
      unfolding b4 by (simp add: emitted_append emitted_failures)
    note b4 b5
  }
  then have F: "running l \<and> keyhashes l = [k] \<and> k \<notin> received l \<and> m \<noteq> [] \<longrightarrow>
      run_actions (?fails @ ?ok) ?s0 =
        (?evf @ [PrintError [''received message for'', k], Emit k m, Sleep 30],
         \<lparr>lst = l\<lparr>received := insert k (received l)\<rparr>, pc = AtWhile, queue = q @ [(k, m)]\<rparr>) \<and>
      emitted (fst (run_actions (?fails @ ?ok) ?s0)) = [(k, m)]"
    by blast
  show ?thesis by (intro conjI A B C D E F)
qed

text \<open>
  The claim C4 as stated (the pause after a failed \<open>get\<close> is significantly longer than the
  normal pause between two passes) fails: both are \<open>time.sleep(30)\<close>. With two watched
  key hashes the poll of the second follows the failed poll of the first after these 30
  seconds.
\<close>

theorem failure_pause_equals_cycle_pause_counterexample:
  "fst (sys_step (Tick Raises)
      \<lparr>lst = \<lparr>received = {}, keyhashes = [''a'', ''b''], running = True\<rparr>, pc = InFor [''a'', ''b''], queue = []\<rparr>) =
     [PrintError [''cannot contact cosigner pool''], Sleep 30] \<and>
   fst (sys_step (Tick Raises)
      \<lparr>lst = \<lparr>received = {}, keyhashes = [''a'', ''b''], running = True\<rparr>, pc = InFor [], queue = []\<rparr>) =
     [Sleep 30] \<and>
   \<not> slept (fst (sys_step (Tick Raises)
      \<lparr>lst = \<lparr>received = {}, keyhashes = [''a'', ''b''], running = True\<rparr>, pc = InFor [], queue = []\<rparr>))
     < slept (fst (sys_step (Tick Raises)
      \<lparr>lst = \<lparr>received = {}, keyhashes = [''a'', ''b''], running = True\<rparr>, pc = InFor [''a'', ''b''], queue = []\<rparr>)) \<and>
   run_actions [Tick Raises, Tick (Returns (Some ''m''))]
      \<lparr>lst = \<lparr>received = {}, keyhashes = [''a'', ''b''], running = True\<rparr>, pc = InFor [''a'', ''b''], queue = []\<rparr> =
     ([PrintError [''cannot contact cosigner pool''], Sleep 30],
      \<lparr>lst = \<lparr>received = {''b''}, keyhashes = [''a'', ''b''], running = True\<rparr>,
        pc = Notify ''b'' ''m'' [], queue = []\<rparr>)"
  by simp

theorem failed_get_sleeps_30_and_recovers_witness:
  "sys_step (Tick Raises)
     \<lparr>lst = \<lparr>received = {}, keyhashes = [''a''], running = True\<rparr>, pc = InFor [''a''], queue = []\<rparr> =
   ([PrintError [''cannot contact cosigner pool''], Sleep 30],
     \<lparr>lst = \<lparr>received = {}, keyhashes = [''a''], running = True\<rparr>, pc = InFor [], queue = []\<rparr>) \<and>
   sys_step (Tick Raises)
     \<lparr>lst = \<lparr>received = {}, keyhashes = [''a''], running = True\<rparr>, pc = InFor [], queue = []\<rparr> =
   ([Sleep 30], \<lparr>lst = \<lparr>received = {}, keyhashes = [''a''], running = True\<rparr>, pc = AtWhile, queue = []\<rparr>) \<and>
   emitted (fst (run_actions [Tick Raises, SetKeyhashes [''a'', ''b''], Tick Raises, Tick Raises, Tick Raises, Tick Raises]
     \<lparr>lst = \<lparr>received = {}, keyhashes = [''a''], running = True\<rparr>, pc = AtWhile, queue = []\<rparr>)) = [] \<and>
   running (lst (snd (run_actions [Tick Raises, SetKeyhashes [''a'', ''b''], Tick Raises, Tick Raises, Tick Raises, Tick Raises]
     \<lparr>lst = \<lparr>received = {}, keyhashes = [''a''], running = True\<rparr>, pc = AtWhile, queue = []\<rparr>))) \<and>
   notifications ''a'' (takeWhile (\<lambda>e. e \<noteq> ServerDelete ''a'')
     (fst (run_actions [Tick (Returns (Some ''m'')), Tick Raises, Tick Raises, Tick Raises, Tick (Returns (Some ''n''))]
        \<lparr>lst = \<lparr>received = {}, keyhashes = [''a''], running = True\<rparr>, pc = InFor [''a''], queue = []\<rparr>)))
     = [(''a'', ''m'')] \<and>
   run_actions (concat (replicate 3 [Tick Raises, Tick Raises, Tick Raises]) @
       [Tick (Returns (Some ''m'')), Tick (Returns (Some ''m'')), Tick (Returns (Some ''m'')),
        Tick (Returns (Some ''m''))])
     \<lparr>lst = \<lparr>received = {}, keyhashes = [''a''], running = True\<rparr>, pc = AtWhile, queue = []\<rparr> =
   (concat (replicate 3 [PrintError [''cannot contact cosigner pool''], Sleep 30, Sleep 30]) @
       [PrintError [''received message for'', ''a''], Emit ''a'' ''m'', Sleep 30],
    \<lparr>lst = \<lparr>received = {''a''}, keyhashes = [''a''], running = True\<rparr>, pc = AtWhile, queue = [(''a'', ''m'')]\<rparr>)"
  using failed_get_sleeps_30_and_recovers
    [where s = "\<lparr>lst = \<lparr>received = {}, keyhashes = [''a''], running = True\<rparr>, pc = InFor [''a''], queue = []\<rparr>"
      and k = "''a''" and rest = "[]"
      and ?s2.0 = "\<lparr>lst = \<lparr>received = {}, keyhashes = [''a''], running = True\<rparr>, pc = InFor [], queue = []\<rparr>"
      and ?got2.0 = Raises
      and ?s3.0 = "\<lparr>lst = \<lparr>received = {}, keyhashes = [''a''], running = True\<rparr>, pc = AtWhile, queue = []\<rparr>"
      and ?as3.0 = "[Tick Raises, SetKeyhashes [''a'', ''b''], Tick Raises, Tick Raises, Tick Raises, Tick Raises]"
      and l = "\<lparr>received = {}, keyhashes = [''a''], running = True\<rparr>"
      and m = "''m''" and q = "[]" and n = 3 and got = Raises
      and as = "[Tick Raises, Tick Raises, Tick (Returns (Some ''n''))]"]
  by simp

subsection \<open>Receiving\<close>

text \<open>
  C3: in \<open>on_receive\<close> the call \<open>self.listener.clear(keyhash)\<close> stands outside the \<open>try\<close>
  block, unlike \<open>server.get\<close> in \<open>run\<close>, \<open>server.put\<close> in \<open>do_send\<close> and the decryption
  itself. At this input the user accepts, the decryption succeeds and \<open>server.delete\<close>
  raises: the exception leaves \<open>on_receive\<close>, \<open>show_transaction\<close> is not reached, and the
  key hash is still in the received set, so that the listener does not poll it again.
  With a \<open>server.delete\<close> that returns, the same input ends in \<open>show_transaction\<close>.
\<close>

theorem on_receive_loses_payload_when_delete_raises:
  "on_receive \<lparr>use_encryption = (\<lambda>w. False), password_dialog = (\<lambda>w. None),
        question = (\<lambda>w. True), get_master_private_key = (\<lambda>w k p. Some ''xprv''),
        decrypt_message = (\<lambda>x c. Inr ''tx''), server_delete = (\<lambda>k. Raises)\<rparr>
      \<lparr>listener = Some \<lparr>received = {''a''}, keyhashes = [''a''], running = True\<rparr>,
        keys = [(''x1/'', ''a'', 0)], cosigner_list = []\<rparr> ''a'' ''c'' =
   ([PrintError [''signal arrived for'', ''a''], ServerDelete ''a''],
    \<lparr>listener = Some \<lparr>received = {''a''}, keyhashes = [''a''], running = True\<rparr>,
        keys = [(''x1/'', ''a'', 0)], cosigner_list = []\<rparr>, Some ServerError) \<and>
   on_receive \<lparr>use_encryption = (\<lambda>w. False), password_dialog = (\<lambda>w. None),
        question = (\<lambda>w. True), get_master_private_key = (\<lambda>w k p. Some ''xprv''),
        decrypt_message = (\<lambda>x c. Inr ''tx''), server_delete = (\<lambda>k. Returns ())\<rparr>
      \<lparr>listener = Some \<lparr>received = {''a''}, keyhashes = [''a''], running = True\<rparr>,
        keys = [(''x1/'', ''a'', 0)], cosigner_list = []\<rparr> ''a'' ''c'' =
   ([PrintError [''signal arrived for'', ''a''], ServerDelete ''a'', ShowTransaction 0 ''tx''],
    \<lparr>listener = Some \<lparr>received = {}, keyhashes = [''a''], running = True\<rparr>,
        keys = [(''x1/'', ''a'', 0)], cosigner_list = []\<rparr>, None)"
  by (simp add: on_receive_def clear_and_show_def clear_def)

end
